theory Spec2Isabelle
  imports Main "HOL-Library.Word"
begin

unbundle bit_operations_syntax

section \<open>Go's \<^verbatim>\<open>net\<close> package, as far as \<^verbatim>\<open>CIDRtoListIP\<close> calls it\<close>

text \<open>
  \<^verbatim>\<open>CIDRtoListIP\<close> (package \<^verbatim>\<open>utils\<close>) is four library calls around one loop:
  \<^verbatim>\<open>net.ParseCIDR\<close>, \<^verbatim>\<open>IP.Mask\<close>, \<^verbatim>\<open>IPNet.Contains\<close> and \<^verbatim>\<open>IP.String\<close>. What the repository's
  function returns is decided by what these return, so they are transcribed here from the
  Go standard library (\<^verbatim>\<open>net/ip.go\<close>, \<^verbatim>\<open>net/parse.go\<close>, \<^verbatim>\<open>net/netip/netip.go\<close>), statement by
  statement. A \<^verbatim>\<open>net.IP\<close> and a \<^verbatim>\<open>net.IPMask\<close> are byte slices; the \<^verbatim>\<open>nil\<close> slice is the empty
  list (both have length 0). A Go \<^verbatim>\<open>string\<close> is a sequence of bytes, as a HOL \<^typ>\<open>string\<close> is.
\<close>

type_synonym byte = "8 word"
type_synonym IP = "byte list"
type_synonym IPMask = "byte list"

record IPNet =
  IP :: IP
  Mask :: IPMask

text \<open>
  \<^verbatim>\<open>IP.To4\<close>: a 4-byte address is returned as it is, a 16-byte address of the form
  \<^verbatim>\<open>::ffff:a.b.c.d\<close> (IPv4-mapped) gives its last four bytes, anything else gives \<^verbatim>\<open>nil\<close>
  (\<^const>\<open>None\<close>).
\<close>

definition v4InV6Prefix :: "byte list" where
  "v4InV6Prefix = [0, 0, 0, 0, 0, 0, 0, 0, 0, 0, 0xff, 0xff]"

definition isZeros :: "byte list \<Rightarrow> bool" where
  "isZeros p = list_all (\<lambda>b. b = 0) p"

definition To4 :: "IP \<Rightarrow> IP option" where
  "To4 ip =
     (if length ip = 4 then Some ip
      else if length ip = 16 \<and> isZeros (take 10 ip) \<and> ip ! 10 = 0xff \<and> ip ! 11 = 0xff
        then Some (drop 12 ip)
      else None)"

text \<open>
  \<^verbatim>\<open>CIDRMask(ones, bits)\<close>: \<open>bits / 8\<close> bytes, the first \<open>ones\<close> bits set. The Go loop
  keeps the number \<open>n\<close> of ones still to write; a byte with fewer than 8 of them is
  \<^verbatim>\<open>^byte(0xff >> n)\<close>.
\<close>

fun CIDRMask_loop :: "nat \<Rightarrow> nat \<Rightarrow> IPMask" where
  "CIDRMask_loop 0 n = []"
| "CIDRMask_loop (Suc l) n =
     (if n \<ge> 8 then 0xff # CIDRMask_loop l (n - 8)
      else NOT (drop_bit n (0xff :: byte)) # CIDRMask_loop l 0)"

definition CIDRMask :: "int \<Rightarrow> int \<Rightarrow> IPMask" where
  "CIDRMask ones bits =
     (if bits \<noteq> 8 * 4 \<and> bits \<noteq> 8 * 16 then []
      else if ones < 0 \<or> ones > bits then []
      else CIDRMask_loop (nat (bits div 8)) (nat ones))"

text \<open>
  \<^verbatim>\<open>IP.Mask\<close>: a 16-byte mask over a 4-byte address and a 4-byte mask over an IPv4-mapped
  16-byte address are first brought to 4 bytes; then the bytes are and-ed. Lengths that
  still differ give \<^verbatim>\<open>nil\<close>.
\<close>

definition allFF :: "byte list \<Rightarrow> bool" where
  "allFF b = list_all (\<lambda>c. c = 0xff) b"

definition Mask_IP :: "IP \<Rightarrow> IPMask \<Rightarrow> IP" where
  "Mask_IP ip0 mask0 =
     (let msk = (if length mask0 = 16 \<and> length ip0 = 4 \<and> allFF (take 12 mask0)
                  then drop 12 mask0 else mask0);
          ip = (if length msk = 4 \<and> length ip0 = 16 \<and> take 12 ip0 = v4InV6Prefix
                then drop 12 ip0 else ip0)
      in if length ip \<noteq> length msk then []
         else map2 (\<lambda>b m. b AND m) ip msk)"

text \<open>
  \<^verbatim>\<open>IPNet.Contains\<close>. Both the network number and the candidate address go through
  \<^verbatim>\<open>To4\<close> first, and addresses of different length are never contained: a 16-byte
  network whose number is not IPv4-mapped contains no IPv4-mapped address, whatever its
  mask says.
\<close>

definition networkNumberAndMask :: "IPNet \<Rightarrow> IP \<times> IPMask" where
  "networkNumberAndMask n =
     (case (case To4 (IP n) of Some x \<Rightarrow> Some x
            | None \<Rightarrow> if length (IP n) \<noteq> 16 then None else Some (IP n)) of
        None \<Rightarrow> ([], [])
      | Some ip \<Rightarrow>
          if length (Mask n) = 4 then
            (if length ip \<noteq> 4 then ([], []) else (ip, Mask n))
          else if length (Mask n) = 16 then
            (if length ip = 4 then (ip, drop 12 (Mask n)) else (ip, Mask n))
          else ([], []))"

definition same_network :: "IP \<Rightarrow> IPMask \<Rightarrow> IP \<Rightarrow> bool" where
  \<comment> \<open>the comparison loop of \<^verbatim>\<open>Contains\<close>: \<open>nn[i]&m[i] == ip[i]&m[i]\<close> at every index\<close>
  "same_network nn m ip =
     list_all (\<lambda>i. (nn ! i) AND (m ! i) = (ip ! i) AND (m ! i)) [0..<length ip]"

definition Contains :: "IPNet \<Rightarrow> IP \<Rightarrow> bool" where
  "Contains n ip0 =
     (let (nn, m) = networkNumberAndMask n;
          ip = (case To4 ip0 of Some x \<Rightarrow> x | None \<Rightarrow> ip0)
      in if length ip \<noteq> length nn then False
         else same_network nn m ip)"

subsection \<open>Parsing: \<^verbatim>\<open>net.ParseCIDR\<close>, \<^verbatim>\<open>netip.ParseAddr\<close>\<close>

text \<open>
  \<^verbatim>\<open>dtoi\<close> reads the decimal prefix length and reports (number, characters consumed,
  success); \<^verbatim>\<open>big = 0xFFFFFF\<close> is its overflow bound.
\<close>

definition byte_of :: "char \<Rightarrow> int" where
  "byte_of c = of_char c"

definition is_digit :: "char \<Rightarrow> bool" where
  "is_digit c = (byte_of CHR ''0'' \<le> byte_of c \<and> byte_of c \<le> byte_of CHR ''9'')"

fun dtoi_loop :: "string \<Rightarrow> int \<Rightarrow> nat \<Rightarrow> int \<times> nat \<times> bool" where
  "dtoi_loop [] n i = (if i = 0 then (0, 0, False) else (n, i, True))"
| "dtoi_loop (c # cs) n i =
     (if is_digit c then
        (let n' = n * 10 + (byte_of c - byte_of CHR ''0'')
         in if n' \<ge> 0xFFFFFF then (0xFFFFFF, i, False) else dtoi_loop cs n' (i + 1))
      else if i = 0 then (0, 0, False) else (n, i, True))"

definition dtoi :: "string \<Rightarrow> int \<times> nat \<times> bool" where
  "dtoi s = dtoi_loop s 0 0"

text \<open>
  \<^verbatim>\<open>parseIPv4Fields\<close>: the Go loop runs an index \<open>i\<close> over the text and asks for \<open>i == 0\<close>,
  \<open>i == len(s)-1\<close> and \<open>s[i-1] == '.'\<close>; here the recursion runs over the rest of the text and
  carries the same three facts (\<open>first\<close>, the rest being empty, the previous character).
  No octet has a leading zero or a value over 255, and there are exactly four.
\<close>

fun parseIPv4Fields_loop ::
  "string \<Rightarrow> bool \<Rightarrow> char option \<Rightarrow> int \<Rightarrow> nat \<Rightarrow> nat \<Rightarrow> byte list \<Rightarrow> byte list option" where
  "parseIPv4Fields_loop [] first prev val pos digLen flds =
     (if pos < 3 then None else Some (flds[3 := of_int val]))"
| "parseIPv4Fields_loop (c # cs) first prev val pos digLen flds =
     (if is_digit c then
        (if digLen = 1 \<and> val = 0 then None
         else (let val' = val * 10 + (byte_of c - byte_of CHR ''0'')
               in if val' > 255 then None
                  else parseIPv4Fields_loop cs False (Some c) val' pos (digLen + 1) flds))
      else if c = CHR ''.'' then
        (if first \<or> cs = [] \<or> prev = Some CHR ''.'' then None
         else if pos = 3 then None
         else parseIPv4Fields_loop cs False (Some c) 0 (pos + 1) 0 (flds[pos := of_int val]))
      else None)"

definition parseIPv4Fields :: "string \<Rightarrow> byte list option" where
  "parseIPv4Fields s = parseIPv4Fields_loop s True None 0 0 0 [0, 0, 0, 0]"

datatype Addr = Addr4 "byte list" | Addr6 "byte list" string

definition parseIPv4 :: "string \<Rightarrow> Addr option" where
  "parseIPv4 s = map_option Addr4 (parseIPv4Fields s)"

text \<open>
  \<^verbatim>\<open>parseIPv6\<close>: groups of at most four hex digits separated by colons, one \<^verbatim>\<open>::\<close> that
  stands for the missing zero groups, an IPv4 tail in the last four bytes, and a zone
  after \<^verbatim>\<open>%\<close>. \<open>hex_loop\<close> is the inner loop (it returns the offset, the value and the rest
  of the text), \<open>parseIPv6_body\<close> one pass through the body of the outer loop over the
  byte index \<open>i\<close> (it fails, breaks out with the final state, or continues with the rest
  of the text after a group and its colon), and \<open>parseIPv6_loop\<close> that loop.
\<close>

definition hex_val :: "char \<Rightarrow> 32 word option" where
  "hex_val c =
     (let b = byte_of c in
      if byte_of CHR ''0'' \<le> b \<and> b \<le> byte_of CHR ''9'' then Some (of_int (b - byte_of CHR ''0''))
      else if byte_of CHR ''a'' \<le> b \<and> b \<le> byte_of CHR ''f'' then Some (of_int (b - byte_of CHR ''a'' + 10))
      else if byte_of CHR ''A'' \<le> b \<and> b \<le> byte_of CHR ''F'' then Some (of_int (b - byte_of CHR ''A'' + 10))
      else None)"

fun hex_loop :: "string \<Rightarrow> nat \<Rightarrow> 32 word \<Rightarrow> (nat \<times> 32 word \<times> string) option" where
  "hex_loop [] off acc = Some (off, acc, [])"
| "hex_loop (c # cs) off acc =
     (case hex_val c of
        None \<Rightarrow> Some (off, acc, c # cs)
      | Some d \<Rightarrow>
          (let acc' = push_bit 4 acc + d
           in if off > 3 then None
              else if acc' > 0xFFFF then None
              else hex_loop cs (off + 1) acc'))"

datatype ('a, 'b) iteration = Error | Break 'a | Continue 'b

definition parseIPv6_body ::
  "string \<Rightarrow> nat \<Rightarrow> byte list \<Rightarrow> int \<Rightarrow>
   (string \<times> nat \<times> byte list \<times> int, string \<times> byte list \<times> int) iteration" where
  "parseIPv6_body s i ip ellipsis =
     (case hex_loop s 0 0 of
        None \<Rightarrow> Error
      | Some (off, acc, rest) \<Rightarrow>
          if off = 0 then Error
          else if rest \<noteq> [] \<and> hd rest = CHR ''.'' then
            (if ellipsis < 0 \<and> i \<noteq> 12 then Error
             else if i + 4 > 16 then Error
             else case parseIPv4Fields s of
                    None \<Rightarrow> Error
                  | Some f \<Rightarrow> Break ([], i + 4, take i ip @ f @ drop (i + 4) ip, ellipsis))
          else
            (let ip' = ip[i := ucast (drop_bit 8 acc), i + 1 := ucast acc]
             in if rest = [] then Break ([], i + 2, ip', ellipsis)
                else if hd rest \<noteq> CHR '':'' then Error
                else if length rest = 1 then Error
                else if hd (tl rest) = CHR '':'' then
                  (if ellipsis \<ge> 0 then Error
                   else if tl (tl rest) = [] then Break ([], i + 2, ip', int (i + 2))
                   else Continue (tl (tl rest), ip', int (i + 2)))
                else Continue (tl rest, ip', ellipsis)))"

function parseIPv6_loop ::
  "string \<Rightarrow> nat \<Rightarrow> byte list \<Rightarrow> int \<Rightarrow> (string \<times> nat \<times> byte list \<times> int) option" where
  "parseIPv6_loop s i ip ellipsis =
     (if \<not> i < 16 then Some (s, i, ip, ellipsis)
      else case parseIPv6_body s i ip ellipsis of
        Error \<Rightarrow> None
      | Break r \<Rightarrow> Some r
      | Continue (s', ip', ellipsis') \<Rightarrow> parseIPv6_loop s' (i + 2) ip' ellipsis')"
  by pat_completeness auto
termination
  by (relation "measure (\<lambda>(s, i, ip, e). 16 - i)") auto

definition expand_ellipsis :: "byte list \<Rightarrow> nat \<Rightarrow> nat \<Rightarrow> byte list" where
  "expand_ellipsis ip i ellipsis =
     (let n = 16 - i;
          moved = foldl (\<lambda>a j. a[j + n := a ! j]) ip (rev [ellipsis..<i])
      in foldl (\<lambda>a k. a[k := 0]) moved [ellipsis..<ellipsis + n])"

definition split_zone :: "string \<Rightarrow> string \<times> string option" where
  "split_zone s =
     (if CHR ''%'' \<in> set s
      then (takeWhile (\<lambda>c. c \<noteq> CHR ''%'') s, Some (tl (dropWhile (\<lambda>c. c \<noteq> CHR ''%'') s)))
      else (s, None))"

definition parseIPv6 :: "string \<Rightarrow> Addr option" where
  "parseIPv6 inp =
     (case split_zone inp of
        (s0, Some []) \<Rightarrow> None
      | (s0, z) \<Rightarrow>
          (let zone = (case z of None \<Rightarrow> [] | Some t \<Rightarrow> t);
               lead = (length s0 \<ge> 2 \<and> s0 ! 0 = CHR '':'' \<and> s0 ! 1 = CHR '':'');
               s1 = (if lead then drop 2 s0 else s0);
               ellipsis0 = (if lead then 0 else -1 :: int)
           in if lead \<and> s1 = [] then Some (Addr6 (replicate 16 0) zone)
              else case parseIPv6_loop s1 0 (replicate 16 0) ellipsis0 of
                None \<Rightarrow> None
              | Some (s, i, ip, ellipsis) \<Rightarrow>
                  if s \<noteq> [] then None
                  else if i < 16 then
                    (if ellipsis < 0 then None
                     else Some (Addr6 (expand_ellipsis ip i (nat ellipsis)) zone))
                  else if ellipsis \<ge> 0 then None
                  else Some (Addr6 ip zone)))"

fun ParseAddr_scan :: "string \<Rightarrow> string \<Rightarrow> Addr option" where
  "ParseAddr_scan s [] = None"
| "ParseAddr_scan s (c # cs) =
     (if c = CHR ''.'' then parseIPv4 s
      else if c = CHR '':'' then parseIPv6 s
      else if c = CHR ''%'' then None
      else ParseAddr_scan s cs)"

definition ParseAddr :: "string \<Rightarrow> Addr option" where
  "ParseAddr s = ParseAddr_scan s s"

text \<open>
  \<^verbatim>\<open>ParseCIDR\<close> cuts the text at the first \<^verbatim>\<open>/\<close>, refuses an address with a zone and a
  prefix length that is not a number of at most \<open>BitLen\<close>, and returns the address in its
  16-byte form (IPv4-mapped for an IPv4 address) and the network: the masked address
  and the mask, both 4 bytes long for IPv4 and 16 for IPv6. Every failure is the one
  \<^verbatim>\<open>ParseError\<close>, here \<^const>\<open>None\<close>.
\<close>

fun Zone :: "Addr \<Rightarrow> string" where
  "Zone (Addr4 b) = []"
| "Zone (Addr6 b z) = z"

fun BitLen :: "Addr \<Rightarrow> int" where
  "BitLen (Addr4 b) = 32"
| "BitLen (Addr6 b z) = 128"

fun As16 :: "Addr \<Rightarrow> byte list" where
  "As16 (Addr4 b) = v4InV6Prefix @ b"
| "As16 (Addr6 b z) = b"

definition Cut :: "string \<Rightarrow> char \<Rightarrow> string \<times> string \<times> bool" where
  "Cut s sep =
     (if sep \<in> set s
      then (takeWhile (\<lambda>c. c \<noteq> sep) s, tl (dropWhile (\<lambda>c. c \<noteq> sep) s), True)
      else (s, [], False))"

definition ParseCIDR :: "string \<Rightarrow> (IP \<times> IPNet) option" where
  "ParseCIDR s =
     (case Cut s CHR ''/'' of
        (addr, msk, found) \<Rightarrow>
          if \<not> found then None
          else case ParseAddr addr of
            None \<Rightarrow> None
          | Some ipAddr \<Rightarrow>
              if Zone ipAddr \<noteq> [] then None
              else case dtoi msk of
                (n, i, ok) \<Rightarrow>
                  if \<not> ok then None
                  else if i \<noteq> length msk then None
                  else if n < 0 then None
                  else if n > BitLen ipAddr then None
                  else (let m = CIDRMask n (BitLen ipAddr);
                            addr16 = As16 ipAddr
                        in Some (addr16, \<lparr>IP = Mask_IP addr16 m, Mask = m\<rparr>)))"

subsection \<open>Formatting: \<^verbatim>\<open>IP.String\<close>\<close>

text \<open>
  An address that \<^verbatim>\<open>To4\<close> accepts prints in dotted decimal; any other 16-byte address
  prints as eight hex groups, the longest run of at least two zero groups (the first
  such run among equals) written \<^verbatim>\<open>::\<close>. \<open>zero_scan\<close> is the search for that run,
  \<open>string6_loop\<close> the output loop, which jumps from \<open>zeroStart\<close> to \<open>zeroEnd\<close>; the test
  \<open>zeroEnd < zeroStart\<close> is not in the Go text: no result of \<open>zero_scan\<close> satisfies it, and
  it makes the recursion total.
\<close>

definition digits :: string where
  "digits = ''0123456789abcdef''"

definition appendDecimal :: "string \<Rightarrow> byte \<Rightarrow> string" where
  "appendDecimal b x =
     (let b1 = (if x \<ge> 100 then b @ [digits ! unat (x div 100)] else b);
          b2 = (if x \<ge> 10 then b1 @ [digits ! unat (x div 10 mod 10)] else b1)
      in b2 @ [digits ! unat (x mod 10)])"

definition string4 :: "byte list \<Rightarrow> string" where
  "string4 p =
     appendDecimal (appendDecimal (appendDecimal (appendDecimal [] (p ! 0) @ ''.'') (p ! 1) @ ''.'')
       (p ! 2) @ ''.'') (p ! 3)"

definition appendHex :: "string \<Rightarrow> 16 word \<Rightarrow> string" where
  "appendHex b x =
     (let b1 = (if x \<ge> 0x1000 then b @ [digits ! unat (drop_bit 12 x)] else b);
          b2 = (if x \<ge> 0x100 then b1 @ [digits ! unat (drop_bit 8 x AND 0xf)] else b1);
          b3 = (if x \<ge> 0x10 then b2 @ [digits ! unat (drop_bit 4 x AND 0xf)] else b2)
      in b3 @ [digits ! unat (x AND 0xf)])"

definition v6u16 :: "byte list \<Rightarrow> nat \<Rightarrow> 16 word" where
  \<comment> \<open>the \<open>i\<close>-th 16-bit group of a 16-byte address\<close>
  "v6u16 ip i = push_bit 8 (ucast (ip ! (2 * i))) OR ucast (ip ! (2 * i + 1))"

fun zero_run_end :: "byte list \<Rightarrow> nat \<Rightarrow> nat \<Rightarrow> nat" where
  "zero_run_end ip 0 j = j"
| "zero_run_end ip (Suc fuel) j =
     (if j < 8 \<and> v6u16 ip j = 0 then zero_run_end ip fuel (Suc j) else j)"

fun zero_scan :: "byte list \<Rightarrow> nat list \<Rightarrow> nat \<times> nat \<Rightarrow> nat \<times> nat" where
  "zero_scan ip [] z = z"
| "zero_scan ip (i # is) (zeroStart, zeroEnd) =
     (let j = zero_run_end ip 8 i; l = j - i
      in if l \<ge> 2 \<and> l > zeroEnd - zeroStart then zero_scan ip is (i, j)
         else zero_scan ip is (zeroStart, zeroEnd))"

function string6_loop :: "byte list \<Rightarrow> nat \<Rightarrow> nat \<Rightarrow> nat \<Rightarrow> string \<Rightarrow> string" where
  "string6_loop ip zeroStart zeroEnd i ret =
     (if \<not> i < 8 then ret
      else if i = zeroStart then
        (if zeroEnd \<ge> 8 \<or> zeroEnd < zeroStart then ret @ ''::''
         else string6_loop ip zeroStart zeroEnd (zeroEnd + 1)
                (appendHex (ret @ ''::'') (v6u16 ip zeroEnd)))
      else string6_loop ip zeroStart zeroEnd (i + 1)
             (appendHex (if i > 0 then ret @ '':'' else ret) (v6u16 ip i)))"
  by pat_completeness auto
termination
  by (relation "measure (\<lambda>(ip, zs, ze, i, ret). 8 - i)") auto

definition string6 :: "byte list \<Rightarrow> string" where
  "string6 ip =
     (case zero_scan ip [0..<8] (255, 255) of
        (zeroStart, zeroEnd) \<Rightarrow> string6_loop ip zeroStart zeroEnd 0 [])"

definition hexString :: "byte list \<Rightarrow> string" where
  "hexString b = concat (map (\<lambda>x. [digits ! unat (drop_bit 4 x), digits ! unat (x AND 0xf)]) b)"

definition IP_String :: "IP \<Rightarrow> string" where
  "IP_String ip =
     (if length ip = 0 then ''<nil>''
      else if length ip \<noteq> 4 \<and> length ip \<noteq> 16 then ''?'' @ hexString ip
      else case To4 ip of
             Some p4 \<Rightarrow> string4 p4
           | None \<Rightarrow> string6 ip)"

section \<open>Package \<^verbatim>\<open>utils\<close>: \<^verbatim>\<open>incrementIP\<close> and \<^verbatim>\<open>CIDRtoListIP\<close>\<close>

text \<open>
  \<^verbatim>\<open>incrementIP\<close> walks the bytes from the last index down: a byte 255 becomes 0 and the
  walk continues, any other byte is incremented and the walk stops. \<open>incrementIP_loop k\<close>
  is the Go loop at index \<open>n = k - 1\<close>; at \<open>k = 0\<close> the index has gone below 0 and the loop
  ends.
\<close>

fun incrementIP_loop :: "nat \<Rightarrow> IP \<Rightarrow> IP" where
  "incrementIP_loop 0 ip = ip"
| "incrementIP_loop (Suc n) ip =
     (if ip ! n = 255 then incrementIP_loop n (ip[n := 0])
      else ip[n := ip ! n + 1])"

definition incrementIP :: "IP \<Rightarrow> IP" where
  "incrementIP ip = incrementIP_loop (length ip) ip"

text \<open>
  The loop of \<^verbatim>\<open>CIDRtoListIP\<close> has no bound of its own: it ends when \<^verbatim>\<open>Contains\<close> first
  fails. It is a partial function; \<^const>\<open>None\<close> is a run that never leaves the loop.
  \<^verbatim>\<open>CIDRtoListIP\<close> returns the error text (\<^const>\<open>Inl\<close>) when the CIDR does not parse, else
  the list of addresses, printed.
\<close>

partial_function (option) CIDRtoListIP_loop :: "IPNet \<Rightarrow> IP \<Rightarrow> string list \<Rightarrow> string list option" where
  [code]: "CIDRtoListIP_loop ipNet ip IPs =
     (if Contains ipNet ip
      then CIDRtoListIP_loop ipNet (incrementIP ip) (IPs @ [IP_String ip])
      else Some IPs)"

definition CIDRtoListIP :: "string \<Rightarrow> (string + string list) option" where
  "CIDRtoListIP cidr =
     (case ParseCIDR cidr of
        None \<Rightarrow> Some (Inl (''Couldn't parse '' @ cidr @ '' CIDR''))
      | Some (ip, ipNet) \<Rightarrow>
          map_option Inr (CIDRtoListIP_loop ipNet (Mask_IP ip (Mask ipNet)) []))"

text \<open>
  The number an address stands for, read as a big-endian counter in base 256. It is
  the yardstick the properties below are stated with; the program does not compute it.
\<close>

definition ip_val :: "IP \<Rightarrow> nat" where
  "ip_val ip = foldl (\<lambda>a b. a * 256 + unat b) 0 ip"

text \<open>The address of \<open>l\<close> bytes that stands for a number (modulo \<open>256 ^ l\<close>).\<close>

fun ip_of_nat :: "nat \<Rightarrow> nat \<Rightarrow> IP" where
  "ip_of_nat 0 v = []"
| "ip_of_nat (Suc l) v = of_nat (v div 256 ^ l) # ip_of_nat l v"

text \<open>
  The IPv6 blocks that \<^verbatim>\<open>Contains\<close> does not treat as their mask says: the network
  number is not IPv4-mapped, yet the masked comparison alone would put the first
  IPv4-mapped address \<^verbatim>\<open>::ffff:0.0.0.0\<close> into the block. These are the 96 blocks of prefix
  length below 96 that cover the whole range \<^verbatim>\<open>::ffff:0:0/96\<close>.
\<close>

definition covers_v4_mapped :: "IPNet \<Rightarrow> bool" where
  "covers_v4_mapped n =
     (length (Mask n) = 16 \<and> To4 (IP n) = None \<and>
      same_network (IP n) (Mask n) (v4InV6Prefix @ [0, 0, 0, 0]))"

section \<open>Package \<^verbatim>\<open>web\<close>: the API handlers\<close>

text \<open>
  A handler reads the request method, calls the service manager and writes one response
  through one of three helpers of the package: \<^verbatim>\<open>writeJSONResponse(w, status, data)\<close>,
  \<^verbatim>\<open>writeJSONError(w, message, status)\<close> and \<^verbatim>\<open>methodNotAllowed(w)\<close>. A response is modelled as
  the helper call that wrote it, with the arguments the handler passed.
\<close>

definition MethodGet :: string where "MethodGet = ''GET''"
definition MethodPost :: string where "MethodPost = ''POST''"

definition StatusOK :: nat where "StatusOK = 200"
definition StatusNotFound :: nat where "StatusNotFound = 404"
definition StatusConflict :: nat where "StatusConflict = 409"
definition StatusInternalServerError :: nat where "StatusInternalServerError = 500"

record Request =
  Method :: string

datatype 'r json =
    MapString "(string \<times> string) list"
  | MapStrings "(string \<times> string list) list"
  | Array "'r list"

datatype 'r Response =
    WriteJSONResponse nat "'r json"
  | WriteJSONError string nat
  | MethodNotAllowed

text \<open>
  Modelled from the spec: the helpers \<^verbatim>\<open>writeJSONResponse\<close> and \<^verbatim>\<open>writeJSONError\<close> are not in
  the source files at hand. The spec's interface table gives every response the status
  its handler names, and every error the body \<^verbatim>\<open>{"error": string}\<close>; so the status of a
  response is the status argument of the call, and the error text is the message
  argument. What \<^verbatim>\<open>methodNotAllowed\<close> writes is stated nowhere and is left open.
\<close>

fun response_status :: "'r Response \<Rightarrow> nat option" where
  "response_status (WriteJSONResponse status d) = Some status"
| "response_status (WriteJSONError msg status) = Some status"
| "response_status MethodNotAllowed = None"

fun response_error :: "'r Response \<Rightarrow> string option" where
  "response_error (WriteJSONError msg status) = Some msg"
| "response_error r = None"

text \<open>
  The service manager is not in the source files at hand either. A handler sees of it
  only what a call returns: \<^verbatim>\<open>nil\<close> (\<^const>\<open>None\<close>) or an error with its message, and the
  manager's state afterwards. The operations a handler below calls are the fields of a
  record, over any type \<open>'m\<close> of manager states.
\<close>

record 'm ServiceManager =
  StopProxy :: "'m \<Rightarrow> string option \<times> 'm"
  RotateProxy :: "'m \<Rightarrow> string option \<times> 'm"

definition handleProxyStop :: "'m ServiceManager \<Rightarrow> Request \<Rightarrow> 'm \<Rightarrow> 'r Response \<times> 'm" where
  "handleProxyStop manager r st =
     (if Method r \<noteq> MethodPost then (MethodNotAllowed, st)
      else case StopProxy manager st of
             (Some err, st') \<Rightarrow> (WriteJSONError err StatusNotFound, st')
           | (None, st') \<Rightarrow>
               (WriteJSONResponse StatusOK (MapString [(''status'', ''Proxy service stopped'')]), st'))"

definition handleProxyRotate :: "'m ServiceManager \<Rightarrow> Request \<Rightarrow> 'm \<Rightarrow> 'r Response \<times> 'm" where
  "handleProxyRotate manager r st =
     (if Method r \<noteq> MethodPost then (MethodNotAllowed, st)
      else case RotateProxy manager st of
             (Some err, st') \<Rightarrow> (WriteJSONError err StatusConflict, st')
           | (None, st') \<Rightarrow>
               (WriteJSONResponse StatusOK (MapString [(''status'', ''Rotate signal sent'')]), st'))"

text \<open>
  \<^verbatim>\<open>RegisterRoutes\<close>: the patterns and their handlers. A pattern without a trailing slash
  matches its own path only.
\<close>

datatype handler =
    HandleProxyStart | HandleProxyStop | HandleProxyRotate | HandleProxyStatus
  | HandleProxyDetails | HandleHttpTest | HandleHttpTestStatus | HandleHttpTestStop
  | HandleHttpTestHistory | HandleHttpTestClearHistory | HandleCfScannerStart
  | HandleCfScannerStop | HandleCfScannerStatus | HandleCfScannerHistory
  | HandleCfScannerClearHistory | HandleCfScannerRanges

definition RegisterRoutes :: "(string \<times> handler) list" where
  "RegisterRoutes =
     [(''/api/v1/proxy/start'', HandleProxyStart),
      (''/api/v1/proxy/stop'', HandleProxyStop),
      (''/api/v1/proxy/rotate'', HandleProxyRotate),
      (''/api/v1/proxy/status'', HandleProxyStatus),
      (''/api/v1/proxy/details'', HandleProxyDetails),
      (''/api/v1/http/test'', HandleHttpTest),
      (''/api/v1/http/test/status'', HandleHttpTestStatus),
      (''/api/v1/http/test/stop'', HandleHttpTestStop),
      (''/api/v1/http/test/history'', HandleHttpTestHistory),
      (''/api/v1/http/test/clear_history'', HandleHttpTestClearHistory),
      (''/api/v1/scanner/cf/start'', HandleCfScannerStart),
      (''/api/v1/scanner/cf/stop'', HandleCfScannerStop),
      (''/api/v1/scanner/cf/status'', HandleCfScannerStatus),
      (''/api/v1/scanner/cf/history'', HandleCfScannerHistory),
      (''/api/v1/scanner/cf/clear_history'', HandleCfScannerClearHistory),
      (''/api/v1/scanner/cf/ranges'', HandleCfScannerRanges)]"

definition route :: "string \<Rightarrow> handler option" where
  "route path = map_of RegisterRoutes path"

subsection \<open>The Cloudflare ranges\<close>

definition cloudflareRangesLink :: "string list" where
  "cloudflareRangesLink =
     [''https://www.cloudflare.com/ips-v4'',
      ''https://www.cloudflare.com/ips-v6'']"

definition cloudflareRanges :: "string list" where
  "cloudflareRanges =
     [''173.245.48.0/20'',
      ''103.21.244.0/22'',
      ''103.22.200.0/22'',
      ''103.31.4.0/22'',
      ''141.101.64.0/18'',
      ''108.162.192.0/18'',
      ''190.93.240.0/20'',
      ''188.114.96.0/20'',
      ''197.234.240.0/22'',
      ''198.41.128.0/17'',
      ''162.158.0.0/15'',
      ''104.16.0.0/13'',
      ''104.24.0.0/14'',
      ''172.64.0.0/13'',
      ''131.0.72.0/22'',
      ''2606:4700::/32'',
      ''2803:f800::/32'',
      ''2400:cb00::/32'',
      ''2c0f:f248::/32'',
      ''2a06:98c0::/29'']"

text \<open>
  An entry of the list is an IPv4 block when \<^verbatim>\<open>net.ParseCIDR\<close> accepts it with a 4-byte
  mask, an IPv6 block when it accepts it with a 16-byte mask.
\<close>

definition is_IPv4_block :: "string \<Rightarrow> bool" where
  "is_IPv4_block s = (case ParseCIDR s of None \<Rightarrow> False | Some (ip, n) \<Rightarrow> length (Mask n) = 4)"

definition is_IPv6_block :: "string \<Rightarrow> bool" where
  "is_IPv6_block s = (case ParseCIDR s of None \<Rightarrow> False | Some (ip, n) \<Rightarrow> length (Mask n) = 16)"

text \<open>
  What one goroutine of \<^verbatim>\<open>fetchAndSendRanges\<close> finds for its URL: \<^verbatim>\<open>http.Get\<close> fails, the
  status is not 200, reading the body fails, or the body arrives. The first three carry
  the text the error message is built from.
\<close>

datatype fetch = GetFailed string | BadStatus string | ReadFailed string | Body string

text \<open>
  \<^verbatim>\<open>strings.TrimSpace\<close> removes the white space at both ends of a string, where white space
  is a rune for which \<^verbatim>\<open>unicode.IsSpace\<close> holds: the six of ASCII (tab, line feed, vertical
  tab, form feed, carriage return, space) and U+0085, U+00A0, U+1680, U+2000 to U+200A,
  U+2028, U+2029, U+202F, U+205F and U+3000. A Go string is a sequence of bytes, here a
  \<^typ>\<open>string\<close>, and its runes are read off the bytes as UTF-8; \<open>space_runes\<close> lists the
  UTF-8 encodings of the white space. A string begins with a white-space rune exactly
  when it begins with one of these encodings, and ends with one exactly when it ends with
  one of them: bytes that are no valid UTF-8 are read as U+FFFD, one byte at a time, and
  that is no white space. \<open>TrimLeft\<close> is \<^verbatim>\<open>TrimLeftFunc(s, unicode.IsSpace)\<close> and \<open>TrimRight\<close>
  is \<^verbatim>\<open>TrimRightFunc(s, unicode.IsSpace)\<close>; the loops over single bytes with which
  \<^verbatim>\<open>TrimSpace\<close> begins are the same two functions on the ASCII part of the string.
\<close>

definition space_runes :: "string list" where
  "space_runes =
     [[CHR 0x09], [CHR 0x0A], [CHR 0x0B], [CHR 0x0C], [CHR 0x0D], [CHR 0x20],
      [CHR 0xC2, CHR 0x85], [CHR 0xC2, CHR 0xA0], [CHR 0xE1, CHR 0x9A, CHR 0x80],
      [CHR 0xE2, CHR 0x80, CHR 0x80], [CHR 0xE2, CHR 0x80, CHR 0x81],
      [CHR 0xE2, CHR 0x80, CHR 0x82], [CHR 0xE2, CHR 0x80, CHR 0x83],
      [CHR 0xE2, CHR 0x80, CHR 0x84], [CHR 0xE2, CHR 0x80, CHR 0x85],
      [CHR 0xE2, CHR 0x80, CHR 0x86], [CHR 0xE2, CHR 0x80, CHR 0x87],
      [CHR 0xE2, CHR 0x80, CHR 0x88], [CHR 0xE2, CHR 0x80, CHR 0x89],
      [CHR 0xE2, CHR 0x80, CHR 0x8A], [CHR 0xE2, CHR 0x80, CHR 0xA8],
      [CHR 0xE2, CHR 0x80, CHR 0xA9], [CHR 0xE2, CHR 0x80, CHR 0xAF],
      [CHR 0xE2, CHR 0x81, CHR 0x9F], [CHR 0xE3, CHR 0x80, CHR 0x80]]"

text \<open>
  The number of bytes of the white-space rune a string begins with, and of the one it ends
  with; zero if there is none.
\<close>

definition leading_space :: "string \<Rightarrow> nat" where
  "leading_space s =
     (case find (\<lambda>p. take (length p) s = p) space_runes of None \<Rightarrow> 0 | Some p \<Rightarrow> length p)"

definition trailing_space :: "string \<Rightarrow> nat" where
  "trailing_space s =
     (case find (\<lambda>p. length p \<le> length s \<and> drop (length s - length p) s = p) space_runes of
        None \<Rightarrow> 0
      | Some p \<Rightarrow> length p)"

function TrimLeft :: "string \<Rightarrow> string" where
  "TrimLeft s = (if leading_space s = 0 then s else TrimLeft (drop (leading_space s) s))"
  by pat_completeness auto
termination
proof (relation "measure length", goal_cases)
  case 1
  show ?case by simp
next
  case (2 s)
  have "s \<noteq> []"
  proof
    assume "s = []"
    then have "leading_space s = 0"
      by (simp add: leading_space_def space_runes_def)
    with 2 show False by simp
  qed
  then show ?case using 2 by simp
qed

function TrimRight :: "string \<Rightarrow> string" where
  "TrimRight s =
     (if trailing_space s = 0 then s else TrimRight (take (length s - trailing_space s) s))"
  by pat_completeness auto
termination
proof (relation "measure length", goal_cases)
  case 1
  show ?case by simp
next
  case (2 s)
  have "s \<noteq> []"
  proof
    assume "s = []"
    then have "trailing_space s = 0"
      by (simp add: trailing_space_def space_runes_def)
    with 2 show False by simp
  qed
  then show ?case using 2 by simp
qed

declare TrimLeft.simps [simp del] TrimRight.simps [simp del]

definition TrimSpace :: "string \<Rightarrow> string" where
  "TrimSpace s = TrimRight (TrimLeft s)"

fun Split :: "string \<Rightarrow> char \<Rightarrow> string list" where
  "Split [] sep = [[]]"
| "Split (c # cs) sep =
     (if c = sep then [] # Split cs sep
      else case Split cs sep of
             w # ws \<Rightarrow> (c # w) # ws
           | [] \<Rightarrow> [[c]])"

text \<open>
  The two goroutines share \<^verbatim>\<open>allRanges\<close> and \<^verbatim>\<open>firstError\<close> under one mutex, and each
  touches them in one critical section, after its fetch. A run of the handler is
  therefore the fetches' outcomes and the order \<open>sched\<close> in which the goroutines enter
  their critical sections: \<open>record_fetch\<close> is one critical section, and the state after
  \<^verbatim>\<open>wg.Wait()\<close> is the fold of it over the schedule.
\<close>

record fetch_state =
  allRanges :: "string list"
  firstError :: "string option"

definition record_fetch :: "(string \<Rightarrow> fetch) \<Rightarrow> fetch_state \<Rightarrow> string \<Rightarrow> fetch_state" where
  "record_fetch get s url =
     (case get url of
        GetFailed err \<Rightarrow>
          (if firstError s = None
           then s\<lparr>firstError := Some (''failed to fetch '' @ url @ '': '' @ err)\<rparr> else s)
      | BadStatus status \<Rightarrow>
          (if firstError s = None
           then s\<lparr>firstError := Some (''bad status from '' @ url @ '': '' @ status)\<rparr> else s)
      | ReadFailed err \<Rightarrow>
          (if firstError s = None
           then s\<lparr>firstError := Some (''failed to read body from '' @ url @ '': '' @ err)\<rparr> else s)
      | Body body \<Rightarrow> s\<lparr>allRanges := allRanges s @ Split (TrimSpace body) CHR 0x0A\<rparr>)"

definition fetchAndSendRanges :: "(string \<Rightarrow> fetch) \<Rightarrow> string list \<Rightarrow> 'r Response \<times> string list" where
  "fetchAndSendRanges get sched =
     (let s = foldl (record_fetch get) \<lparr>allRanges = [], firstError = None\<rparr> sched
      in case firstError s of
           Some err \<Rightarrow>
             (WriteJSONResponse StatusOK (MapStrings [(''ranges'', cloudflareRanges)]),
              [''Failed to fetch live Cloudflare IP ranges, using fallback list. Error: '' @ err])
         | None \<Rightarrow> (WriteJSONResponse StatusOK (MapStrings [(''ranges'', allRanges s)]), []))"

definition handleCfScannerRanges ::
  "(string \<Rightarrow> fetch) \<Rightarrow> string list \<Rightarrow> Request \<Rightarrow> 'r Response \<times> string list" where
  "handleCfScannerRanges get sched r =
     (if Method r \<noteq> MethodGet then (MethodNotAllowed, [])
      else fetchAndSendRanges get sched)"

text \<open>A schedule of the handler: every URL of \<^verbatim>\<open>cloudflareRangesLink\<close>, once.\<close>

definition schedule :: "string list \<Rightarrow> bool" where
  "schedule sched = (distinct sched \<and> set sched = set cloudflareRangesLink)"

definition fetch_failed :: "fetch \<Rightarrow> bool" where
  "fetch_failed f = (case f of Body b \<Rightarrow> False | _ \<Rightarrow> True)"

text \<open>The ranges one outcome contributes: the lines of its trimmed body.\<close>

fun fetched_ranges :: "fetch \<Rightarrow> string list" where
  "fetched_ranges (Body body) = Split (TrimSpace body) CHR 0x0A"
| "fetched_ranges f = []"

section \<open>The WebSocket consumer: \<^verbatim>\<open>services/websocket.ts\<close>\<close>

text \<open>
  Of the \<^verbatim>\<open>WebSocketService\<close> the batching of \<^verbatim>\<open>http_result\<close> messages is modelled: its two
  fields \<^verbatim>\<open>httpResultBuffer\<close> and \<^verbatim>\<open>httpResultTimer\<close>, and the calls of the store's
  \<^verbatim>\<open>addHttpResultsBatch\<close>, in order, each with the array it was given (\<open>addedBatches\<close>).
  The timer field holds the period of the armed interval timer, \<^const>\<open>None\<close> for \<^verbatim>\<open>null\<close>;
  the identifier \<^verbatim>\<open>setInterval\<close> returns plays no part.
\<close>

definition BATCH_INTERVAL :: nat where
  "BATCH_INTERVAL = 250"

record 'r WebSocketService =
  httpResultBuffer :: "'r list"
  httpResultTimer :: "nat option"
  addedBatches :: "'r list list"

definition flushHttpResultBuffer :: "'r WebSocketService \<Rightarrow> 'r WebSocketService" where
  "flushHttpResultBuffer s =
     (if length (httpResultBuffer s) > 0
      then s\<lparr>addedBatches := addedBatches s @ [httpResultBuffer s], httpResultBuffer := []\<rparr>
      else s)"

definition startHttpResultBatching :: "'r WebSocketService \<Rightarrow> 'r WebSocketService" where
  "startHttpResultBatching s =
     (if httpResultTimer s = None then s\<lparr>httpResultTimer := Some BATCH_INTERVAL\<rparr> else s)"

definition stopHttpResultBatching :: "'r WebSocketService \<Rightarrow> 'r WebSocketService" where
  "stopHttpResultBatching s =
     flushHttpResultBuffer (if httpResultTimer s \<noteq> None then s\<lparr>httpResultTimer := None\<rparr> else s)"

text \<open>
  A message, by the \<^verbatim>\<open>type\<close> the \<^verbatim>\<open>switch\<close> of \<^verbatim>\<open>handleMessage\<close> reads. The cases other than
  \<^verbatim>\<open>http_result\<close> and \<^verbatim>\<open>http_test_status\<close> (and the default) call setters of the store, the
  event emitter and the toaster, and leave buffer and timer alone: \<open>Other_type\<close>, with
  the type's name. \<^const>\<open>None\<close> is data that is empty or not JSON: the handler returns, or
  catches the parse error, before the \<^verbatim>\<open>switch\<close>.
\<close>

datatype 'r message = Http_result 'r | Http_test_status string | Other_type string

fun handleMessage :: "'r message option \<Rightarrow> 'r WebSocketService \<Rightarrow> 'r WebSocketService" where
  "handleMessage None s = s"
| "handleMessage (Some (Http_result d)) s =
     (let s1 = startHttpResultBatching s
      in s1\<lparr>httpResultBuffer := httpResultBuffer s1 @ [d]\<rparr>)"
| "handleMessage (Some (Http_test_status status)) s = stopHttpResultBatching s"
| "handleMessage (Some (Other_type t)) s = s"

text \<open>
  What happens to the service: a message arrives, the interval timer fires (it does so
  only while it is armed), the socket closes (\<^verbatim>\<open>onclose\<close>), or \<^verbatim>\<open>disconnect\<close> is called.
\<close>

datatype 'r event = Message "'r message option" | Tick | Close | Disconnect

fun step :: "'r WebSocketService \<Rightarrow> 'r event \<Rightarrow> 'r WebSocketService" where
  "step s (Message m) = handleMessage m s"
| "step s Tick = (if httpResultTimer s \<noteq> None then flushHttpResultBuffer s else s)"
| "step s Close = stopHttpResultBatching s"
| "step s Disconnect = stopHttpResultBatching s"

definition new_service :: "'r WebSocketService" where
  "new_service = \<lparr>httpResultBuffer = [], httpResultTimer = None, addedBatches = []\<rparr>"

definition run :: "'r event list \<Rightarrow> 'r WebSocketService" where
  "run es = foldl step new_service es"

text \<open>The results that arrived during a run, in order of arrival.\<close>

fun received :: "'r event list \<Rightarrow> 'r list" where
  "received [] = []"
| "received (Message (Some (Http_result d)) # es) = d # received es"
| "received (e # es) = received es"

text \<open>What the store has been given so far: the batches, one after the other.\<close>

definition delivered :: "'r WebSocketService \<Rightarrow> 'r list" where
  "delivered s = concat (addedBatches s)"

text \<open>
  The invariant of the service: a non-empty buffer has an armed timer, and an armed
  timer has the period \<^verbatim>\<open>BATCH_INTERVAL\<close>.
\<close>

definition batching_inv :: "'r WebSocketService \<Rightarrow> bool" where
  "batching_inv s =
     ((httpResultBuffer s = [] \<or> httpResultTimer s = Some BATCH_INTERVAL) \<and>
      (httpResultTimer s = None \<or> httpResultTimer s = Some BATCH_INTERVAL))"

section \<open>Package \<^verbatim>\<open>web\<close>: the history files\<close>

text \<open>
  \<^verbatim>\<open>appendResultsToCSV\<close> and \<^verbatim>\<open>loadResultsFromCSV\<close> write and read a history file through
  the standard package \<^verbatim>\<open>encoding/csv\<close> and the library \<^verbatim>\<open>gocsv\<close>. Neither is among the source
  files at hand; what the two functions make them do is written out here from the
  libraries' own code, byte by byte for \<^verbatim>\<open>encoding/csv\<close>, because the file's content is what
  the properties below are about. A Go string is a sequence of bytes, here a \<^typ>\<open>string\<close>.
\<close>

abbreviation LF :: char where "LF \<equiv> CHR 0x0A"
abbreviation CR :: char where "CR \<equiv> CHR 0x0D"
abbreviation QUOTE :: char where "QUOTE \<equiv> CHR 0x22"
abbreviation COMMA :: char where "COMMA \<equiv> CHR 0x2C"

subsection \<open>\<^verbatim>\<open>encoding/csv\<close>: the writer\<close>

text \<open>
  \<^verbatim>\<open>csv.NewWriter\<close> sets the separator to a comma and \<^verbatim>\<open>UseCRLF\<close> to false.
  \<^verbatim>\<open>fieldNeedsQuotes\<close> quotes a field that is \<^verbatim>\<open>\.\<close>, that holds a separator, a quote, a
  carriage return or a line feed, or whose first rune is white space for
  \<^verbatim>\<open>unicode.IsSpace\<close>, that is, one that begins with an encoding of \<^const>\<open>space_runes\<close>.
\<close>

definition starts_with_space :: "string \<Rightarrow> bool" where
  "starts_with_space field = list_ex (\<lambda>p. take (length p) field = p) space_runes"

definition fieldNeedsQuotes :: "string \<Rightarrow> bool" where
  "fieldNeedsQuotes field =
     (if field = [] then False
      else if field = [CHR 0x5C, CHR 0x2E] then True
      else if list_ex (\<lambda>c. c = LF \<or> c = CR \<or> c = QUOTE \<or> c = COMMA) field then True
      else starts_with_space field)"

text \<open>
  Inside the quotes \<^verbatim>\<open>Write\<close> copies the field, a quote written twice; with \<^verbatim>\<open>UseCRLF\<close>
  false a carriage return and a line feed are copied as they are.
\<close>

fun write_quoted :: "string \<Rightarrow> string" where
  "write_quoted [] = []"
| "write_quoted (c # cs) = (if c = QUOTE then [QUOTE, QUOTE] else [c]) @ write_quoted cs"

definition write_field :: "string \<Rightarrow> string" where
  "write_field field =
     (if \<not> fieldNeedsQuotes field then field
      else [QUOTE] @ write_quoted field @ [QUOTE])"

fun write_fields :: "nat \<Rightarrow> string list \<Rightarrow> string" where
  "write_fields n [] = []"
| "write_fields n (field # fs) =
     (if n > 0 then [COMMA] else []) @ write_field field @ write_fields (Suc n) fs"

definition Writer_Write :: "string list \<Rightarrow> string" where
  "Writer_Write record = write_fields 0 record @ [LF]"

subsection \<open>\<^verbatim>\<open>encoding/csv\<close>: the reader\<close>

text \<open>
  \<^verbatim>\<open>csv.NewReader\<close> sets the separator to a comma; no comment character, no lazy quotes,
  no trimming of leading space, and \<^verbatim>\<open>FieldsPerRecord\<close> zero. The reader's input is the text
  not read yet. \<^verbatim>\<open>readLine\<close> returns the next line with its line feed, \<^const>\<open>None\<close> at the end
  of the input: a carriage return before the end of the input is dropped, and a line
  that ends in a carriage return and a line feed is returned ending in the line feed
  alone.
\<close>

datatype csv_error = ErrBareQuote | ErrQuote | ErrFieldCount

definition IndexByte :: "string \<Rightarrow> char \<Rightarrow> nat option" where
  "IndexByte b c = (if c \<in> set b then Some (length (takeWhile (\<lambda>x. x \<noteq> c) b)) else None)"

definition lengthNL :: "string \<Rightarrow> nat" where
  "lengthNL b = (if b \<noteq> [] \<and> last b = LF then 1 else 0)"

definition readLine :: "string \<Rightarrow> (string \<times> string) option" where
  "readLine inp =
     (if inp = [] then None
      else
        (let (line0, rest) =
               (case IndexByte inp LF of
                  Some i \<Rightarrow> (take (i + 1) inp, drop (i + 1) inp)
                | None \<Rightarrow> (if last inp = CR then butlast inp else inp, []));
             n = length line0;
             line = (if n \<ge> 2 \<and> line0 ! (n - 2) = CR \<and> line0 ! (n - 1) = LF
                     then take (n - 2) line0 @ [LF] else line0)
         in Some (line, rest)))"

text \<open>
  \<^verbatim>\<open>readRecord\<close> parses the fields of one record in a loop over the current line, with an
  inner loop for a quoted field, which reads further lines while the field is open.
  \<open>parseQuoted line rest buf\<close> is the inner loop, entered after the opening quote: \<open>line\<close>
  is what is left of the current line, \<open>rest\<close> the input after it, \<open>buf\<close> the field so
  far. It returns the field, the line and the input left, and whether the field ended at
  a separator (the outer loop goes on) or with the line. \<open>parseFields\<close> is the outer loop;
  \<open>dst\<close> holds the fields parsed so far. Every loop of the reader consumes input; that
  the loops terminate is proved with the properties of the history files, where the
  lemmas on what they consume are.
\<close>

function parseQuoted ::
  "string \<Rightarrow> string \<Rightarrow> string \<Rightarrow> csv_error + (string \<times> string \<times> string \<times> bool)" where
  "parseQuoted line rest buf =
     (case IndexByte line QUOTE of
        Some i \<Rightarrow>
          (let buf' = buf @ take i line; line' = drop (i + 1) line
           in if line' \<noteq> [] \<and> hd line' = QUOTE then parseQuoted (tl line') rest (buf' @ [QUOTE])
              else if line' \<noteq> [] \<and> hd line' = COMMA then Inr (buf', tl line', rest, True)
              else if lengthNL line' = length line' then Inr (buf', line', rest, False)
              else Inl ErrQuote)
      | None \<Rightarrow>
          if length line > 0 then
            (case readLine rest of
               None \<Rightarrow> parseQuoted [] [] (buf @ line)
             | Some (line', rest') \<Rightarrow> parseQuoted line' rest' (buf @ line))
          else Inl ErrQuote)"
  by pat_completeness auto

function parseFields :: "string \<Rightarrow> string \<Rightarrow> string list \<Rightarrow> csv_error + (string list \<times> string)" where
  "parseFields line rest dst =
     (if line = [] \<or> hd line \<noteq> QUOTE then
        (case IndexByte line COMMA of
           Some i \<Rightarrow>
             (if QUOTE \<in> set (take i line) then Inl ErrBareQuote
              else parseFields (drop (i + 1) line) rest (dst @ [take i line]))
         | None \<Rightarrow>
             (let field = take (length line - lengthNL line) line
              in if QUOTE \<in> set field then Inl ErrBareQuote
                 else Inr (dst @ [field], rest)))
      else
        (case parseQuoted (tl line) rest [] of
           Inl err \<Rightarrow> Inl err
         | Inr (field, line', rest', again) \<Rightarrow>
             if again then parseFields line' rest' (dst @ [field])
             else Inr (dst @ [field], rest')))"
  by pat_completeness auto

text \<open>
  Before it parses, \<^verbatim>\<open>readRecord\<close> skips the lines that hold a line feed and nothing else
  (\<open>skip_empty_lines\<close>); at the end of the input it returns \<^verbatim>\<open>io.EOF\<close>, here \<^const>\<open>None\<close>.
  After it has parsed, it compares the number of fields with \<^verbatim>\<open>FieldsPerRecord\<close>, which the
  first record sets when it is zero. The result holds the record, the new
  \<^verbatim>\<open>FieldsPerRecord\<close> and the input left.
\<close>

function skip_empty_lines :: "string \<Rightarrow> (string \<times> string) option" where
  "skip_empty_lines inp =
     (case readLine inp of
        None \<Rightarrow> None
      | Some (line, rest) \<Rightarrow>
          if length line = lengthNL line then skip_empty_lines rest else Some (line, rest))"
  by pat_completeness auto

definition readRecord ::
  "int \<Rightarrow> string \<Rightarrow> (csv_error + (string list \<times> int \<times> string)) option" where
  "readRecord FieldsPerRecord inp =
     (case skip_empty_lines inp of
        None \<Rightarrow> None
      | Some (line, rest) \<Rightarrow>
          Some (case parseFields line rest [] of
                  Inl err \<Rightarrow> Inl err
                | Inr (dst, rest') \<Rightarrow>
                    if FieldsPerRecord > 0 then
                      (if int (length dst) \<noteq> FieldsPerRecord then Inl ErrFieldCount
                       else Inr (dst, FieldsPerRecord, rest'))
                    else if FieldsPerRecord = 0 then Inr (dst, int (length dst), rest')
                    else Inr (dst, FieldsPerRecord, rest')))"

function ReadAll_loop :: "int \<Rightarrow> string \<Rightarrow> string list list \<Rightarrow> csv_error + string list list" where
  "ReadAll_loop FieldsPerRecord inp records =
     (case readRecord FieldsPerRecord inp of
        None \<Rightarrow> Inr records
      | Some (Inl err) \<Rightarrow> Inl err
      | Some (Inr (record, FieldsPerRecord', rest)) \<Rightarrow>
          ReadAll_loop FieldsPerRecord' rest (records @ [record]))"
  by pat_completeness auto

definition ReadAll :: "string \<Rightarrow> csv_error + string list list" where
  "ReadAll inp = ReadAll_loop 0 inp []"

subsection \<open>\<^verbatim>\<open>gocsv\<close>\<close>

text \<open>
  \<^verbatim>\<open>gocsv\<close> finds the columns of a row in the struct type of the batch, by reflection. The
  types of the results (\<^verbatim>\<open>pkghttp.Result\<close>, \<^verbatim>\<open>scanner.ScanResult\<close>) are not among the source
  files at hand, so the functions below are over any type \<open>'r\<close> of results, and what
  \<^verbatim>\<open>gocsv\<close> derives from the type is a record of three fields: \<open>Fields\<close>, the first key of
  each column (the header row); \<open>getInnerField r j\<close>, the text of column \<open>j\<close> of \<open>r\<close>, or the
  error of its encoding; \<open>readRow headers row\<close>, the result that the inner loop of
  \<^verbatim>\<open>readTo\<close> builds from a row under a header row, or the error of the first column that
  does not decode.
\<close>

record 'r codec =
  Fields :: "string list"
  getInnerField :: "'r \<Rightarrow> nat \<Rightarrow> string + string"
  readRow :: "string list \<Rightarrow> string list \<Rightarrow> string + 'r"

fun getInnerFields :: "'r codec \<Rightarrow> 'r \<Rightarrow> nat list \<Rightarrow> string + string list" where
  "getInnerFields c r [] = Inr []"
| "getInnerFields c r (j # js) =
     (case getInnerField c r j of
        Inl err \<Rightarrow> Inl err
      | Inr x \<Rightarrow> (case getInnerFields c r js of Inl err \<Rightarrow> Inl err | Inr xs \<Rightarrow> Inr (x # xs)))"

definition csvRow :: "'r codec \<Rightarrow> 'r \<Rightarrow> string + string list" where
  "csvRow c r = getInnerFields c r [0..<length (Fields c)]"

text \<open>
  \<^verbatim>\<open>writeTo\<close> writes the header row unless told to omit it, then one row for each element
  of the batch; it stops at the first row that does not encode. The result is the text
  handed to the CSV writer, and the error if there is one.
\<close>

fun writeTo_rows :: "'r codec \<Rightarrow> 'r list \<Rightarrow> string \<Rightarrow> string \<times> string option" where
  "writeTo_rows c [] out = (out, None)"
| "writeTo_rows c (r # rs) out =
     (case csvRow c r of
        Inl err \<Rightarrow> (out, Some err)
      | Inr row \<Rightarrow> writeTo_rows c rs (out @ Writer_Write row))"

definition writeTo :: "'r codec \<Rightarrow> 'r list \<Rightarrow> bool \<Rightarrow> string \<times> string option" where
  "writeTo c batch omitHeaders =
     writeTo_rows c batch (if omitHeaders then [] else Writer_Write (Fields c))"

definition MarshalCSV :: "'r codec \<Rightarrow> 'r list \<Rightarrow> string \<times> string option" where
  "MarshalCSV c batch = writeTo c batch False"

definition MarshalCSVWithoutHeaders :: "'r codec \<Rightarrow> 'r list \<Rightarrow> string \<times> string option" where
  "MarshalCSVWithoutHeaders c batch = writeTo c batch True"

text \<open>
  The errors of \<^verbatim>\<open>gocsv.UnmarshalFile\<close>: a \<^verbatim>\<open>*csv.ParseError\<close> of the reader, a
  \<^verbatim>\<open>*csv.ParseError\<close> that \<^verbatim>\<open>gocsv\<close> makes of a column that does not decode, and the two errors
  \<^verbatim>\<open>ErrEmptyCSVFile\<close> and \<^verbatim>\<open>ErrNoStructTags\<close> of \<^verbatim>\<open>gocsv\<close>. The text of a \<^verbatim>\<open>*csv.ParseError\<close>
  begins with the line and the column of the error, which are not tracked here: in their
  place \<open>Error_text\<close> has the words \<^verbatim>\<open>parse error: \<close>. The other texts are those of the
  libraries.
\<close>

datatype error = ParseError csv_error | FieldError string | ErrEmptyCSVFile | ErrNoStructTags

fun csv_error_text :: "csv_error \<Rightarrow> string" where
  "csv_error_text ErrBareQuote = ''bare '' @ [QUOTE] @ '' in non-quoted-field''"
| "csv_error_text ErrQuote = ''extraneous or missing '' @ [QUOTE] @ '' in quoted-field''"
| "csv_error_text ErrFieldCount = ''wrong number of fields''"

fun Error_text :: "error \<Rightarrow> string" where
  "Error_text (ParseError err) = ''parse error: '' @ csv_error_text err"
| "Error_text (FieldError err) = ''parse error: '' @ err"
| "Error_text ErrEmptyCSVFile = ''empty csv file given''"
| "Error_text ErrNoStructTags = ''no csv struct tags found''"

text \<open>
  \<^verbatim>\<open>UnmarshalFile\<close> reads all the records of the file. With no record it returns
  \<^verbatim>\<open>ErrEmptyCSVFile\<close> and leaves the slice as it is. Otherwise \<^verbatim>\<open>ensureOutCapacity\<close> replaces a
  slice that is shorter than the number of records after the first by a slice of that
  many \<^verbatim>\<open>nil\<close> pointers, and leaves a slice that is long enough as it is;
  \<^verbatim>\<open>UnmarshalFile\<close> then takes the first record as the header row and sets the elements
  row by row, up to the first row that does not decode. The slice is a list of pointers,
  \<^const>\<open>None\<close> for \<^verbatim>\<open>nil\<close>; the \<^verbatim>\<open>nil\<close> slice is \<^const>\<open>None\<close> too, and has no elements.
\<close>

definition slice_elements :: "'a list option \<Rightarrow> 'a list" where
  "slice_elements v = (case v of None \<Rightarrow> [] | Some xs \<Rightarrow> xs)"

definition ensureOutCapacity :: "'a option list option \<Rightarrow> nat \<Rightarrow> 'a option list option" where
  "ensureOutCapacity out csvLen =
     (if length (slice_elements out) < csvLen - 1 then Some (replicate (csvLen - 1) None)
      else out)"

fun readTo_rows ::
  "'r codec \<Rightarrow> string list \<Rightarrow> string list list \<Rightarrow> nat \<Rightarrow> 'r option list \<Rightarrow>
   error option \<times> 'r option list" where
  "readTo_rows c headers [] i out = (None, out)"
| "readTo_rows c headers (row # body) i out =
     (case readRow c headers row of
        Inl err \<Rightarrow> (Some (FieldError err), out)
      | Inr r \<Rightarrow> readTo_rows c headers body (Suc i) (out[i := Some r]))"

definition UnmarshalFile ::
  "'r codec \<Rightarrow> string \<Rightarrow> 'r option list option \<Rightarrow> error option \<times> 'r option list option" where
  "UnmarshalFile c content v =
     (case ReadAll content of
        Inl err \<Rightarrow> (Some (ParseError err), v)
      | Inr csvRows \<Rightarrow>
          if length csvRows = 0 then (Some ErrEmptyCSVFile, v)
          else
            (let out = ensureOutCapacity v (length csvRows)
             in if length (Fields c) = 0 then (Some ErrNoStructTags, out)
                else (case readTo_rows c (hd csvRows) (tl csvRows) 0 (slice_elements out) of
                        (err, out') \<Rightarrow> (err, if out = None then None else Some out'))))"

subsection \<open>\<^verbatim>\<open>appendResultsToCSV\<close>, \<^verbatim>\<open>loadResultsFromCSV\<close> and the history handler\<close>

text \<open>
  The files are a map from paths to contents. What the operating system may refuse is
  given with each call: \<open>open_err\<close>, an error of opening the file other than that it does
  not exist; \<open>stat_err\<close>, an error of \<^verbatim>\<open>Stat\<close>; \<open>write_err\<close>, an error of writing to the file, for
  a batch that encodes without error. The CSV writer writes through the buffered writer
  that \<^verbatim>\<open>appendResultsToCSV\<close> makes (\<^verbatim>\<open>bufio.NewWriter\<close> returns the buffered writer it is
  given), and \<^verbatim>\<open>gocsv\<close> flushes it and returns its error, so an error of writing is an error
  of \<^verbatim>\<open>MarshalCSV\<close>, and the two calls of \<^verbatim>\<open>Flush\<close> at the end find nothing left to write.
  A call that returns early leaves in the file what the buffered writer had passed on by
  then: the first \<open>flushed\<close> bytes of the text written. Reading an open file is taken to
  succeed.
\<close>

type_synonym files = "string \<rightharpoonup> string"

record io =
  open_err :: "string option"
  stat_err :: "string option"
  write_err :: "string option"
  flushed :: nat

definition appendResultsToCSV ::
  "io \<Rightarrow> 'r codec \<Rightarrow> files \<Rightarrow> string \<Rightarrow> 'r list \<Rightarrow> string option \<times> files" where
  "appendResultsToCSV os c fs filePath batch =
     (case open_err os of
        Some err \<Rightarrow> (Some (''failed to open file for appending: '' @ err), fs)
      | None \<Rightarrow>
          (let old = (case fs filePath of None \<Rightarrow> [] | Some content \<Rightarrow> content)
           in case stat_err os of
                Some err \<Rightarrow> (Some (''failed to stat file: '' @ err), fs(filePath \<mapsto> old))
              | None \<Rightarrow>
                  (case (if length old = 0 then MarshalCSV c batch
                         else MarshalCSVWithoutHeaders c batch) of
                     (out, Some err) \<Rightarrow>
                       (Some (''failed to marshal and append results to CSV: '' @ err),
                        fs(filePath \<mapsto> old @ take (flushed os) out))
                   | (out, None) \<Rightarrow>
                       (case write_err os of
                          Some err \<Rightarrow>
                            (Some (''failed to marshal and append results to CSV: '' @ err),
                             fs(filePath \<mapsto> old @ take (flushed os) out))
                        | None \<Rightarrow> (None, fs(filePath \<mapsto> old @ out))))))"

definition loadResultsFromCSV ::
  "io \<Rightarrow> 'r codec \<Rightarrow> files \<Rightarrow> string \<Rightarrow> 'r option list option \<Rightarrow>
   string option \<times> 'r option list option" where
  "loadResultsFromCSV os c fs filePath v =
     (case open_err os of
        Some err \<Rightarrow> (Some err, v)
      | None \<Rightarrow>
          (case fs filePath of
             None \<Rightarrow> (None, v)
           | Some content \<Rightarrow>
               (case UnmarshalFile c content v of
                  (Some err, v') \<Rightarrow>
                    if Error_text err = ''EOF'' then (None, v')
                    else (Some (''failed to parse CSV file: '' @ Error_text err), v')
                | (None, v') \<Rightarrow> (None, v'))))"

text \<open>
  Modelled from the spec: the constant \<^verbatim>\<open>httpTesterHistoryFile\<close> is not in the source files
  at hand; the spec names the file \<^verbatim>\<open>http_test_history.csv\<close> in the working directory.
\<close>

definition httpTesterHistoryFile :: string where
  "httpTesterHistoryFile = ''http_test_history.csv''"

definition handleHttpTestHistory ::
  "io \<Rightarrow> 'r codec \<Rightarrow> files \<Rightarrow> Request \<Rightarrow> 'r option Response" where
  "handleHttpTestHistory os c fs r =
     (if Method r \<noteq> MethodGet then MethodNotAllowed
      else case loadResultsFromCSV os c fs httpTesterHistoryFile None of
             (Some err, results) \<Rightarrow>
               WriteJSONError (''failed to load http test history: '' @ err)
                 StatusInternalServerError
           | (None, results) \<Rightarrow>
               WriteJSONResponse StatusOK
                 (Array (case results of None \<Rightarrow> [] | Some rs \<Rightarrow> rs)))"

text \<open>
  The history of a file: the calls of \<^verbatim>\<open>appendResultsToCSV\<close> on it, one batch each, none of
  them refused by the operating system.
\<close>

definition no_faults :: io where
  "no_faults = \<lparr>open_err = None, stat_err = None, write_err = None, flushed = 0\<rparr>"

definition append_all :: "'r codec \<Rightarrow> string \<Rightarrow> files \<Rightarrow> 'r list list \<Rightarrow> files" where
  "append_all c filePath fs batches =
     foldl (\<lambda>fs batch. snd (appendResultsToCSV no_faults c fs filePath batch)) fs batches"

text \<open>
  The content of a file, empty for a file that does not exist; the text of the rows of a
  batch as \<^verbatim>\<open>Write\<close> writes them, up to the first result that does not encode; and the row
  of a result that encodes.
\<close>

definition file_content :: "files \<Rightarrow> string \<Rightarrow> string" where
  "file_content fs filePath = (case fs filePath of None \<Rightarrow> [] | Some content \<Rightarrow> content)"

fun rows_text :: "'r codec \<Rightarrow> 'r list \<Rightarrow> string" where
  "rows_text c [] = []"
| "rows_text c (r # rs) =
     (case csvRow c r of Inl err \<Rightarrow> [] | Inr row \<Rightarrow> Writer_Write row @ rows_text c rs)"

definition encodes :: "'r codec \<Rightarrow> 'r \<Rightarrow> bool" where
  "encodes c r = (case csvRow c r of Inl err \<Rightarrow> False | Inr row \<Rightarrow> True)"

text \<open>
  What a call is to append to a file of content \<open>old\<close>: the header row if the file is empty,
  then the rows of the batch.
\<close>

definition appended :: "'r codec \<Rightarrow> string \<Rightarrow> 'r list \<Rightarrow> string" where
  "appended c old batch =
     (if old = [] then Writer_Write (Fields c) else []) @ rows_text c batch"





text \<open>
  The first line of a text with its line feed, and the text after it.
\<close>

definition split_line :: "string \<Rightarrow> string \<times> string" where
  "split_line t = (takeWhile (\<lambda>x. x \<noteq> LF) t @ [LF], tl (dropWhile (\<lambda>x. x \<noteq> LF) t))"

text \<open>
  A codec of rows of text, for examples: the results are the rows themselves, under the
  given header row.
\<close>

definition rows_codec :: "string list \<Rightarrow> string list codec" where
  "rows_codec headers =
     \<lparr>Fields = headers,
      getInnerField = (\<lambda>r j. if j < length r then Inr (r ! j) else Inr []),
      readRow = (\<lambda>hs row. Inr row)\<rparr>"

section \<open>Properties of \<^verbatim>\<open>incrementIP\<close>\<close>

lemma ip_val_Nil [simp]: "ip_val [] = 0" by (simp add: ip_val_def)
lemma ip_val_snoc [simp]: "ip_val (xs @ [b]) = ip_val xs * 256 + unat b"
  by (simp add: ip_val_def)
lemma ip_val_append: "ip_val (xs @ ys) = ip_val xs * 256 ^ length ys + ip_val ys"
  by (induction ys rule: rev_induct) (simp_all add: algebra_simps flip: append_assoc)
lemma unat_byte_lt: "unat (b::byte) < 256"
proof -
  have "unat b < 2 ^ LENGTH(8)" by (rule unsigned_less)
  then show ?thesis by simp
qed

lemma ip_val_lt: "ip_val xs < 256 ^ length xs"
proof (induction xs rule: rev_induct)
  case Nil show ?case by simp
next
  case (snoc b xs)
  with unat_byte_lt[of b] show ?case by simp
qed

lemma length_incrementIP_loop [simp]: "length (incrementIP_loop k ip) = length ip"
  by (induction k arbitrary: ip) simp_all

lemma ip_val_loop:
  "k \<le> length ip \<Longrightarrow>
   ip_val (incrementIP_loop k ip) =
     ((ip_val (take k ip) + 1) mod 256 ^ k) * 256 ^ (length ip - k) + ip_val (drop k ip)"
proof (induction k arbitrary: ip)
  case 0
  then show ?case by simp
next
  case (Suc k)
  then have klt: "k < length ip" by simp
  define a where "a = ip_val (take k ip)"
  define r where "r = ip_val (drop (Suc k) ip)"
  define m where "m = length ip - Suc k"
  have lenm: "length (drop (Suc k) ip) = m" by (simp add: m_def)
  have alt: "a < 256 ^ k" using ip_val_lt[of "take k ip"] klt by (simp add: a_def)
  have tk: "take (Suc k) ip = take k ip @ [ip ! k]" using klt by (simp add: take_Suc_conv_app_nth)
  have vt: "ip_val (take (Suc k) ip) = a * 256 + unat (ip ! k)" by (simp add: tk a_def)
  have nk: "length ip - k = Suc m" using klt by (simp add: m_def)
  have upd: "\<And>v. ip[k := v] = take k ip @ v # drop (Suc k) ip"
    using klt by (simp add: upd_conv_take_nth_drop)
  show ?case
  proof (cases "ip ! k = 255")
    case True
    let ?ip' = "ip[k := 0]"
    have d: "drop k ?ip' = 0 # drop (Suc k) ip" using klt by (simp add: upd)
    have t: "take k ?ip' = take k ip" by simp
    have v0: "ip_val (0 # drop (Suc k) ip) = r"
      using ip_val_append[of "[0]" "drop (Suc k) ip"] by (simp add: r_def ip_val_def)
    have "ip_val (incrementIP_loop (Suc k) ip) = ip_val (incrementIP_loop k ?ip')"
      using True by simp
    also have "\<dots> = ((a + 1) mod 256 ^ k) * 256 ^ Suc m + r"
      using Suc.IH[of ?ip'] klt by (simp add: d t v0 a_def nk)
    also have "\<dots> = ((a * 256 + 255 + 1) mod 256 ^ Suc k) * 256 ^ m + r"
    proof -
      have "(a * 256 + 255 + 1) mod 256 ^ Suc k = (256 * (a + 1)) mod (256 * 256 ^ k)" by (simp add: algebra_simps)
      also have "\<dots> = 256 * ((a + 1) mod 256 ^ k)" by (rule mult_mod_right[symmetric])
      finally show ?thesis by simp
    qed
    finally show ?thesis using True by (simp add: vt r_def m_def)
  next
    case False
    have "unat (ip ! k) \<noteq> unat (255::byte)" using False by (simp add: word_unat_eq_iff)
    then have "unat (ip ! k) \<noteq> 255" by simp
    then have blt: "unat (ip ! k) + 1 < 256" using unat_byte_lt[of "ip ! k"] by simp
    have ub: "unat (ip ! k + 1) = unat (ip ! k) + 1" using blt by (simp add: unat_word_ariths)
    have "ip_val (incrementIP_loop (Suc k) ip) = ip_val (take k ip @ (ip ! k + 1) # drop (Suc k) ip)"
      using False by (simp add: upd)
    also have "\<dots> = ip_val ((take k ip @ [ip ! k + 1]) @ drop (Suc k) ip)" by simp
    also have "\<dots> = (a * 256 + unat (ip ! k) + 1) * 256 ^ m + r"
      using ip_val_append[of "take k ip @ [ip ! k + 1]" "drop (Suc k) ip"]
      by (simp add: a_def r_def m_def ub)
    also have "a * 256 + unat (ip ! k) + 1 = (a * 256 + unat (ip ! k) + 1) mod 256 ^ Suc k"
    proof -
      have "a * 256 + unat (ip ! k) + 1 < (a + 1) * 256" using blt by simp
      also have "\<dots> \<le> 256 ^ k * 256" using alt by (intro mult_right_mono) simp_all
      finally show ?thesis by simp
    qed
    finally show ?thesis by (simp add: vt r_def m_def)
  qed
qed

lemma ip_val_incrementIP: "ip_val (incrementIP ip) = (ip_val ip + 1) mod 256 ^ length ip"
  using ip_val_loop[of "length ip" ip] by (simp add: incrementIP_def)

lemma incrementIP_loop_all255:
  "incrementIP_loop k (replicate k 255 @ zs) = replicate k 0 @ zs"
proof (induction k arbitrary: zs)
  case 0 show ?case by simp
next
  case (Suc k)
  have e: "replicate (Suc k) (255::byte) @ zs = replicate k 255 @ (255 # zs)"
    by (simp add: replicate_app_Cons_same)
  have n: "(replicate k (255::byte) @ (255 # zs)) ! k = 255" by (simp add: nth_append)
  have u: "(replicate k (255::byte) @ (255 # zs))[k := 0] = replicate k 255 @ (0 # zs)"
    by (simp add: list_update_append)
  have "incrementIP_loop (Suc k) (replicate k 255 @ (255 # zs)) = replicate k 0 @ (0 # zs)"
    using Suc[of "0 # zs"] by (simp add: n u)
  then show ?case unfolding e by (simp add: replicate_app_Cons_same)
qed

text \<open>
  C6. For an address of any number \<open>n\<close> of bytes, \<^verbatim>\<open>incrementIP\<close> keeps the length and
  yields the successor of the address read as a big-endian counter in base 256: every
  byte wraps at 256 and carries into the next-higher byte, so the value grows by one
  modulo \<open>256 ^ n\<close>; in particular the all-255 address becomes the all-zero address.
\<close>

theorem incrementIP_successor:
  "length (incrementIP ip) = length ip \<and>
   ip_val (incrementIP ip) = (ip_val ip + 1) mod 256 ^ length ip \<and>
   incrementIP (replicate n 255) = replicate n 0"
proof -
  have wrap: "incrementIP (replicate n 255) = replicate n 0"
    using incrementIP_loop_all255[of n "[]"] by (simp add: incrementIP_def)
  have len: "length (incrementIP ip) = length ip"
    by (simp add: incrementIP_def)
  from len ip_val_incrementIP[of ip] wrap show ?thesis by blast
qed

section \<open>Properties of \<^verbatim>\<open>CIDRtoListIP\<close>\<close>

subsection \<open>The loop\<close>

text \<open>
  The loop returns after exactly \<open>K\<close> rounds when the first \<open>K\<close> successors of the start
  address are contained in the network and the next one is not; it returns only if some
  successor is not contained.
\<close>

lemma CIDRtoListIP_loop_steps:
  "(\<And>k. k < K \<Longrightarrow> Contains n ((incrementIP ^^ k) ip)) \<Longrightarrow>
   \<not> Contains n ((incrementIP ^^ K) ip) \<Longrightarrow>
   CIDRtoListIP_loop n ip acc =
     Some (acc @ map (\<lambda>k. IP_String ((incrementIP ^^ k) ip)) [0..<K])"
proof (induction K arbitrary: ip acc)
  case 0
  then show ?case by (subst CIDRtoListIP_loop.simps) simp
next
  case (Suc K)
  have c0: "Contains n ip" using Suc.prems(1)[of 0] by simp
  have step: "\<And>k. k < K \<Longrightarrow> Contains n ((incrementIP ^^ k) (incrementIP ip))"
    using Suc.prems(1) by (metis Suc_less_eq funpow_Suc_right comp_apply)
  have stop: "\<not> Contains n ((incrementIP ^^ K) (incrementIP ip))"
    using Suc.prems(2) by (simp add: funpow_swap1)
  have "CIDRtoListIP_loop n ip acc = CIDRtoListIP_loop n (incrementIP ip) (acc @ [IP_String ip])"
    using c0 by (subst CIDRtoListIP_loop.simps) simp
  also have "\<dots> = Some ((acc @ [IP_String ip]) @
      map (\<lambda>k. IP_String ((incrementIP ^^ k) (incrementIP ip))) [0..<K])"
    by (rule Suc.IH[OF step stop])
  also have "map (\<lambda>k. IP_String ((incrementIP ^^ k) (incrementIP ip))) [0..<K] =
      map (\<lambda>k. IP_String ((incrementIP ^^ k) ip)) [Suc 0..<Suc K]"
    by (simp add: map_Suc_upt[symmetric] funpow_swap1 del: upt_Suc)
  finally show ?case by (simp add: upt_conv_Cons del: upt_Suc)
qed

lemma CIDRtoListIP_loop_returns:
  assumes ret: "CIDRtoListIP_loop n ip acc = Some r"
  shows "\<exists>K. \<not> Contains n ((incrementIP ^^ K) ip)"
proof (rule CIDRtoListIP_loop.raw_induct
    [where P = "\<lambda>n ip acc r. \<exists>K. \<not> Contains n ((incrementIP ^^ K) ip)", OF _ ret])
  fix f :: "IPNet \<Rightarrow> IP \<Rightarrow> string list \<Rightarrow> string list option"
  fix n ip acc r
  assume IH: "\<And>n ip acc r. f n ip acc = Some r \<Longrightarrow> \<exists>K. \<not> Contains n ((incrementIP ^^ K) ip)"
  assume body: "(if Contains n ip then f n (incrementIP ip) (acc @ [IP_String ip]) else Some acc) = Some r"
  show "\<exists>K. \<not> Contains n ((incrementIP ^^ K) ip)"
  proof (cases "Contains n ip")
    case True
    with body have "f n (incrementIP ip) (acc @ [IP_String ip]) = Some r" by simp
    from IH[OF this] obtain K where "\<not> Contains n ((incrementIP ^^ K) (incrementIP ip))" ..
    then have "\<not> Contains n ((incrementIP ^^ Suc K) ip)" by (simp add: funpow_swap1)
    then show ?thesis ..
  next
    case False
    then have "\<not> Contains n ((incrementIP ^^ 0) ip)" by simp
    then show ?thesis ..
  qed
qed

lemma CIDRtoListIP_loop_diverges:
  "(\<And>k. Contains n ((incrementIP ^^ k) ip)) \<Longrightarrow> CIDRtoListIP_loop n ip acc = None"
  using CIDRtoListIP_loop_returns[of n ip acc] by (cases "CIDRtoListIP_loop n ip acc") auto

subsection \<open>Addresses as numbers\<close>

lemma ip_val_Cons: "ip_val (a # as) = unat a * 256 ^ length as + ip_val as"
  using ip_val_append[of "[a]" as] by (simp add: ip_val_def)

lemma ip_val_inj: "length xs = length ys \<Longrightarrow> ip_val xs = ip_val ys \<Longrightarrow> xs = ys"
proof (induction xs ys rule: list_induct2)
  case Nil
  then show ?case by simp
next
  case (Cons a as b bs)
  let ?m = "256 ^ length as :: nat"
  have la: "ip_val as < ?m" by (rule ip_val_lt)
  have lb: "ip_val bs < ?m" using ip_val_lt[of bs] Cons.hyps by simp
  have eq: "unat a * ?m + ip_val as = unat b * ?m + ip_val bs"
    using Cons.prems Cons.hyps by (simp add: ip_val_Cons)
  have "(unat a * ?m + ip_val as) div ?m = unat a" using la by simp
  moreover have "(unat b * ?m + ip_val bs) div ?m = unat b" using lb by simp
  ultimately have ab: "unat a = unat b" using eq by simp
  then have "a = b" by (simp add: word_unat_eq_iff)
  moreover have "ip_val as = ip_val bs" using eq ab by simp
  ultimately show ?case using Cons.IH by simp
qed

lemma length_ip_of_nat [simp]: "length (ip_of_nat l v) = l"
  by (induction l) simp_all

lemma unat_of_nat_byte: "unat (of_nat n :: byte) = n mod 256"
  by (simp add: unat_of_nat)

lemma ip_val_ip_of_nat: "ip_val (ip_of_nat l v) = v mod 256 ^ l"
proof (induction l)
  case 0
  then show ?case by simp
next
  case (Suc l)
  have "ip_val (ip_of_nat (Suc l) v) = (v div 256 ^ l) mod 256 * 256 ^ l + v mod 256 ^ l"
    using Suc by (simp add: ip_val_Cons unat_of_nat_byte)
  also have "\<dots> = v mod (256 ^ l * 256)"
    by (metis mod_mult2_eq mult.commute)
  finally show ?case by (simp add: mult.commute)
qed

lemma ip_of_nat_ip_val: "ip_of_nat (length ip) (ip_val ip) = ip"
  by (rule ip_val_inj) (simp_all add: ip_val_ip_of_nat ip_val_lt)

lemma length_incrementIP [simp]: "length (incrementIP ip) = length ip"
  by (simp add: incrementIP_def)

lemma length_funpow_incrementIP [simp]: "length ((incrementIP ^^ k) ip) = length ip"
  by (induction k) simp_all

lemma ip_val_funpow_incrementIP:
  "ip_val ((incrementIP ^^ k) ip) = (ip_val ip + k) mod 256 ^ length ip"
proof (induction k)
  case 0
  then show ?case by (simp add: ip_val_lt)
next
  case (Suc k)
  then show ?case by (simp add: ip_val_incrementIP mod_Suc_eq)
qed

lemma funpow_incrementIP_eq:
  "(incrementIP ^^ k) ip = ip_of_nat (length ip) (ip_val ip + k)"
  by (rule ip_val_inj) (simp_all add: ip_val_ip_of_nat ip_val_funpow_incrementIP)

subsection \<open>Masks\<close>

text \<open>
  And-ing an address of \<open>l\<close> bytes with the mask of \<open>n\<close> ones clears its last \<open>8 * l - n\<close>
  bits, and two addresses agree under the mask exactly when they agree on their first
  \<open>n\<close> bits.
\<close>

lemma ff_mask: "(0xff :: byte) = mask 8"
  by (simp add: mask_eq_exp_minus_1)

lemma and_cidr_byte:
  "n < 8 \<Longrightarrow> (a::byte) AND NOT (drop_bit n (0xff :: byte)) = push_bit (8 - n) (drop_bit (8 - n) a)"
  unfolding ff_mask drop_bit_mask_eq
  by (rule bit_word_eqI) (auto simp: bit_simps)

lemma unat_push_drop:
  "unat (push_bit k (drop_bit k (a::byte))) = unat a div 2 ^ k * 2 ^ k"
proof -
  have "unat (push_bit k (drop_bit k a)) = take_bit 8 (push_bit k (drop_bit k (unat a)))"
    by (simp add: unsigned_push_bit_eq unat_drop_bit_eq)
  also have "\<dots> = (unat a div 2 ^ k * 2 ^ k) mod 256"
    by (simp add: take_bit_eq_mod push_bit_eq_mult drop_bit_eq_div)
  also have "\<dots> = unat a div 2 ^ k * 2 ^ k"
  proof (rule mod_less)
    have "unat a div 2 ^ k * 2 ^ k \<le> unat a" by simp
    then show "unat a div 2 ^ k * 2 ^ k < 256" using unat_byte_lt[of a] by linarith
  qed
  finally show ?thesis .
qed

lemma unat_and_cidr_byte:
  "n < 8 \<Longrightarrow> unat ((a::byte) AND NOT (drop_bit n (0xff :: byte))) = unat a div 2 ^ (8 - n) * 2 ^ (8 - n)"
  by (simp only: and_cidr_byte unat_push_drop)

lemma and_ff_byte [simp]: "(a::byte) AND 255 = a"
  unfolding ff_mask by (rule bit_word_eqI) (auto simp: bit_simps)

lemma length_CIDRMask_loop [simp]: "length (CIDRMask_loop l n) = l"
  by (induction l arbitrary: n) simp_all

lemma CIDRMask_loop_zero: "CIDRMask_loop l 0 = replicate l 0"
  by (induction l) simp_all

lemma ip_val_replicate_zero [simp]: "ip_val (replicate l 0) = 0"
  by (induction l) (simp_all add: ip_val_Cons)

lemma map2_and_zero: "length ip = l \<Longrightarrow> map2 (AND) ip (replicate l (0::byte)) = replicate l 0"
  by (induction ip arbitrary: l) auto

lemma ip_val_masked:
  "length ip = l \<Longrightarrow> n \<le> 8 * l \<Longrightarrow>
   ip_val (map2 (AND) ip (CIDRMask_loop l n)) = ip_val ip div 2 ^ (8 * l - n) * 2 ^ (8 * l - n)"
proof (induction l arbitrary: ip n)
  case 0
  then show ?case by simp
next
  case (Suc l)
  then obtain a as where ip: "ip = a # as" and las: "length as = l"
    by (cases ip) auto
  have p256: "(256::nat) ^ l = 2 ^ (8 * l)" by (simp add: power_mult)
  have vlt: "ip_val as < 2 ^ (8 * l)" using ip_val_lt[of as] las p256 by simp
  show ?case
  proof (cases "n \<ge> 8")
    case True
    define d where "d = 8 * l - (n - 8)"
    have d: "8 + 8 * l - n = d" using True Suc.prems by (simp add: d_def)
    have dle: "d \<le> 8 * l" by (simp add: d_def)
    have n8: "n - 8 \<le> 8 * l" using Suc.prems by simp
    have IH: "ip_val (map2 (AND) as (CIDRMask_loop l (n - 8))) = ip_val as div 2 ^ d * 2 ^ d"
      using Suc.IH[OF las n8] by (simp add: d_def)
    have split: "(2::nat) ^ (8 * l) = 2 ^ (8 * l - d) * 2 ^ d"
      using dle by (simp flip: power_add)
    have "ip_val (map2 (AND) ip (CIDRMask_loop (Suc l) n))
        = unat a * 2 ^ (8 * l) + ip_val as div 2 ^ d * 2 ^ d"
      using True by (simp add: ip ip_val_Cons las IH p256)
    also have "\<dots> = (unat a * 2 ^ (8 * l - d) + ip_val as div 2 ^ d) * 2 ^ d"
      by (subst split) (simp add: algebra_simps)
    also have "unat a * 2 ^ (8 * l - d) + ip_val as div 2 ^ d
        = (unat a * 2 ^ (8 * l) + ip_val as) div 2 ^ d"
    proof -
      have "((unat a * 2 ^ (8 * l - d)) * 2 ^ d + ip_val as) div 2 ^ d
          = unat a * 2 ^ (8 * l - d) + ip_val as div 2 ^ d"
        by simp
      moreover have "(unat a * 2 ^ (8 * l - d)) * 2 ^ d = unat a * 2 ^ (8 * l)"
        using split by (simp add: mult.assoc)
      ultimately show ?thesis by simp
    qed
    finally show ?thesis by (simp add: ip ip_val_Cons las p256 d)
  next
    case False
    then have n8: "n < 8" by simp
    define k where "k = 8 - n"
    define V where "V = unat a * 2 ^ (8 * l) + ip_val as"
    have d: "8 * Suc l - n = k + 8 * l" using n8 by (simp add: k_def)
    have vip: "ip_val ip = V" by (simp add: V_def ip ip_val_Cons las p256)
    have pk: "(2::nat) ^ (k + 8 * l) = 2 ^ (8 * l) * 2 ^ k"
      by (simp add: power_add)
    have "V div 2 ^ (k + 8 * l) = (V div 2 ^ (8 * l)) div 2 ^ k"
      by (simp only: pk div_mult2_eq)
    also have "V div 2 ^ (8 * l) = unat a"
      using vlt by (simp add: V_def)
    finally have q: "V div 2 ^ (k + 8 * l) = unat a div 2 ^ k" .
    have "map2 (AND) ip (CIDRMask_loop (Suc l) n)
        = (a AND NOT (drop_bit n 255)) # replicate l 0"
      using n8 by (simp add: ip las CIDRMask_loop_zero map2_and_zero)
    then have "ip_val (map2 (AND) ip (CIDRMask_loop (Suc l) n))
        = unat a div 2 ^ k * 2 ^ k * 2 ^ (8 * l)"
      using n8 by (simp add: ip_val_Cons unat_and_cidr_byte k_def p256)
    also have "\<dots> = V div 2 ^ (k + 8 * l) * 2 ^ (k + 8 * l)"
    proof -
      have "unat a div 2 ^ k * 2 ^ k * 2 ^ (8 * l) = unat a div 2 ^ k * 2 ^ (k + 8 * l)"
        by (simp add: power_add)
      then show ?thesis by (simp only: q)
    qed
    finally show ?thesis by (simp only: d vip)
  qed
qed

lemma same_network_map2:
  "length nn = length ip \<Longrightarrow> length m = length ip \<Longrightarrow>
   same_network nn m ip \<longleftrightarrow> map2 (AND) nn m = map2 (AND) ip m"
proof -
  assume l: "length nn = length ip" "length m = length ip"
  have "map2 (AND) nn m = map2 (AND) ip m \<longleftrightarrow>
      (\<forall>i<length ip. map2 (AND) nn m ! i = map2 (AND) ip m ! i)"
    using l by (simp add: list_eq_iff_nth_eq)
  also have "\<dots> \<longleftrightarrow> (\<forall>i<length ip. (nn ! i) AND (m ! i) = (ip ! i) AND (m ! i))"
    using l by simp
  also have "\<dots> \<longleftrightarrow> same_network nn m ip"
    by (auto simp: same_network_def list_all_iff)
  finally show ?thesis by simp
qed

lemma same_network_cidr:
  assumes "length nn = l" "length ip = l" "n \<le> 8 * l"
  shows "same_network nn (CIDRMask_loop l n) ip \<longleftrightarrow>
         ip_val nn div 2 ^ (8 * l - n) = ip_val ip div 2 ^ (8 * l - n)"
proof -
  let ?m = "CIDRMask_loop l n"
  have "same_network nn ?m ip \<longleftrightarrow> map2 (AND) nn ?m = map2 (AND) ip ?m"
    using assms by (simp add: same_network_map2)
  also have "\<dots> \<longleftrightarrow> ip_val (map2 (AND) nn ?m) = ip_val (map2 (AND) ip ?m)"
    using assms by (auto intro: ip_val_inj)
  also have "\<dots> \<longleftrightarrow> ip_val nn div 2 ^ (8 * l - n) = ip_val ip div 2 ^ (8 * l - n)"
    using assms by (simp add: ip_val_masked)
  finally show ?thesis .
qed

lemma isZeros_replicate: "isZeros xs \<longleftrightarrow> xs = replicate (length xs) 0"
  by (induction xs) (auto simp: isZeros_def)

lemma v4InV6Prefix_eq: "v4InV6Prefix = replicate 10 0 @ [0xff, 0xff]"
  by (simp add: v4InV6Prefix_def eval_nat_numeral)

lemma length_v4InV6Prefix [simp]: "length v4InV6Prefix = 12"
  by (simp add: v4InV6Prefix_def)

lemma ip_val_v4InV6Prefix: "ip_val v4InV6Prefix = 0xffff"
  by (simp add: v4InV6Prefix_eq ip_val_append ip_val_Cons)

lemma take_12: "length ip = 16 \<Longrightarrow> take 12 ip = take 10 ip @ [ip ! 10, ip ! 11]"
proof -
  assume l: "length ip = 16"
  have a: "take 11 ip = take 10 ip @ [ip ! 10]"
    using take_Suc_conv_app_nth[of 10 ip] l by simp
  have b: "take 12 ip = take 11 ip @ [ip ! 11]"
    using take_Suc_conv_app_nth[of 11 ip] l by simp
  show ?thesis by (simp add: a b)
qed

lemma To4_16_iff:
  assumes "length ip = 16"
  shows "To4 ip = (if take 12 ip = v4InV6Prefix then Some (drop 12 ip) else None)"
  using assms by (auto simp: To4_def take_12 v4InV6Prefix_eq isZeros_replicate)

lemma ip_val_split_12:
  assumes "length ip = 16"
  shows "ip_val ip = ip_val (take 12 ip) * 2 ^ 32 + ip_val (drop 12 ip)"
  using ip_val_append[of "take 12 ip" "drop 12 ip"] assms by simp

lemma ip_val_drop_12_lt:
  assumes "length ip = 16"
  shows "ip_val (drop 12 ip) < 2 ^ 32"
  using ip_val_lt[of "drop 12 ip"] assms by simp

lemma To4_16_val:
  assumes "length ip = 16"
  shows "To4 ip \<noteq> None \<longleftrightarrow> ip_val ip div 2 ^ 32 = 0xffff"
proof -
  have "ip_val ip div 2 ^ 32 = ip_val (take 12 ip)"
    using ip_val_split_12[OF assms] ip_val_drop_12_lt[OF assms] by simp
  moreover have "take 12 ip = v4InV6Prefix \<longleftrightarrow> ip_val (take 12 ip) = 0xffff"
    using assms ip_val_inj[of "take 12 ip" v4InV6Prefix]
    by (auto simp: ip_val_v4InV6Prefix)
  ultimately show ?thesis using assms by (simp add: To4_16_iff)
qed

lemma To4_16_Some:
  assumes "length ip = 16" "To4 ip = Some x"
  shows "x = drop 12 ip \<and> length x = 4 \<and> ip_val x = ip_val ip mod 2 ^ 32"
proof -
  have x: "x = drop 12 ip" using assms by (auto simp: To4_16_iff split: if_splits)
  moreover have "ip_val ip mod 2 ^ 32 = ip_val (drop 12 ip)"
    using ip_val_split_12[OF assms(1)] ip_val_drop_12_lt[OF assms(1)] by simp
  ultimately show ?thesis using assms(1) by simp
qed

lemma To4_4 [simp]: "length ip = 4 \<Longrightarrow> To4 ip = Some ip"
  by (simp add: To4_def)

lemma drop_CIDRMask_loop:
  "drop j (CIDRMask_loop (j + l) p) = CIDRMask_loop l (p - 8 * j)"
proof (induction j arbitrary: p)
  case 0
  then show ?case by simp
next
  case (Suc j)
  show ?case
  proof (cases "p \<ge> 8")
    case True
    then show ?thesis using Suc[of "p - 8"] by simp
  next
    case False
    then show ?thesis using Suc[of 0] by simp
  qed
qed

lemma drop_12_CIDRMask_loop: "drop 12 (CIDRMask_loop 16 p) = CIDRMask_loop 4 (p - 96)"
  using drop_CIDRMask_loop[of 12 4 p] by simp

subsection \<open>\<^verbatim>\<open>Contains\<close>, numerically\<close>

lemma Contains_v4:
  assumes "length (IP net) = 4" "Mask net = CIDRMask_loop 4 p" "p \<le> 32" "length ip = 4"
  shows "Contains net ip \<longleftrightarrow> ip_val ip div 2 ^ (32 - p) = ip_val (IP net) div 2 ^ (32 - p)"
proof -
  have nm: "networkNumberAndMask net = (IP net, Mask net)"
    using assms by (simp add: networkNumberAndMask_def)
  have "Contains net ip \<longleftrightarrow> same_network (IP net) (CIDRMask_loop 4 p) ip"
    using assms by (simp add: Contains_def nm)
  also have "\<dots> \<longleftrightarrow> ip_val (IP net) div 2 ^ (8 * 4 - p) = ip_val ip div 2 ^ (8 * 4 - p)"
    using assms by (intro same_network_cidr) simp_all
  finally show ?thesis by auto
qed

subsection \<open>Enumerating a block\<close>

lemma block_inside:
  fixes base :: nat
  assumes "d \<le> b" "base < 2 ^ b" "2 ^ d dvd base" "k < 2 ^ d"
  shows "(base + k) mod 2 ^ b = base + k" and "(base + k) div 2 ^ d = base div 2 ^ d"
proof -
  obtain q where q: "base = q * 2 ^ d" using assms(3) by (auto simp: dvd_def mult.commute)
  have pb: "(2::nat) ^ b = 2 ^ (b - d) * 2 ^ d" using assms(1) by (simp flip: power_add)
  have "q * 2 ^ d < 2 ^ (b - d) * 2 ^ d" using assms(2) q pb by simp
  then have "q < 2 ^ (b - d)" by simp
  then have "Suc q \<le> 2 ^ (b - d)" by simp
  then have "Suc q * 2 ^ d \<le> 2 ^ (b - d) * 2 ^ d" by (rule mult_le_mono1)
  then have "base + 2 ^ d \<le> 2 ^ b" using q pb by simp
  then have "base + k < 2 ^ b" using assms(4) by simp
  then show "(base + k) mod 2 ^ b = base + k" by simp
  show "(base + k) div 2 ^ d = base div 2 ^ d" using assms(4) q by simp
qed

lemma block_next:
  fixes base :: nat
  assumes "d < b" "base < 2 ^ b" "2 ^ d dvd base"
  shows "((base + 2 ^ d) mod 2 ^ b) div 2 ^ d \<noteq> base div 2 ^ d"
proof -
  obtain q where q: "base = q * 2 ^ d" using assms(3) by (auto simp: dvd_def mult.commute)
  have pb: "(2::nat) ^ b = 2 ^ (b - d) * 2 ^ d" using assms(1) by (simp flip: power_add)
  have "q * 2 ^ d < 2 ^ (b - d) * 2 ^ d" using assms(2) q pb by simp
  then have qlt: "q < 2 ^ (b - d)" by simp
  have bq: "base div 2 ^ d = q" using q by simp
  have sum: "base + 2 ^ d = Suc q * 2 ^ d" using q by simp
  show ?thesis
  proof (cases "Suc q < 2 ^ (b - d)")
    case True
    then have "Suc q * 2 ^ d < 2 ^ (b - d) * 2 ^ d"
      by (intro mult_strict_right_mono) simp_all
    then have "(base + 2 ^ d) mod 2 ^ b = Suc q * 2 ^ d" using sum pb by simp
    then show ?thesis using bq by simp
  next
    case False
    with qlt have e: "Suc q = 2 ^ (b - d)" by simp
    then have "base + 2 ^ d = 2 ^ b" using sum pb by simp
    then have z: "((base + 2 ^ d) mod 2 ^ b) div 2 ^ d = 0" by simp
    have "(2::nat) ^ (b - d) \<ge> 2" using assms(1) self_le_power[of 2 "b - d"] by simp
    then have "q \<ge> 1" using e by simp
    then show ?thesis using z bq by simp
  qed
qed

lemma enumerate_v4:
  assumes len: "length (IP net) = 4" and m: "Mask net = CIDRMask_loop 4 p"
    and p: "1 \<le> p" "p \<le> 32" and al: "2 ^ (32 - p) dvd ip_val (IP net)"
  shows "CIDRtoListIP_loop net (IP net) acc =
    Some (acc @ map (\<lambda>k. IP_String (ip_of_nat 4 (ip_val (IP net) + k))) [0..<2 ^ (32 - p)])"
proof -
  let ?d = "32 - p" and ?base = "ip_val (IP net)"
  have blt: "?base < 2 ^ 32" using ip_val_lt[of "IP net"] len by simp
  have dle: "?d \<le> 32" by simp
  have dlt: "?d < 32" using p by simp
  have inside: "Contains net ((incrementIP ^^ k) (IP net))" if "k < 2 ^ ?d" for k
  proof -
    have "ip_val ((incrementIP ^^ k) (IP net)) = (?base + k) mod 2 ^ 32"
      by (simp add: ip_val_funpow_incrementIP len)
    also have "\<dots> = ?base + k" using block_inside(1)[OF dle blt al that] .
    finally show ?thesis
      using block_inside(2)[OF dle blt al that] p
      by (simp add: Contains_v4[OF len m] len)
  qed
  have outside: "\<not> Contains net ((incrementIP ^^ (2 ^ ?d)) (IP net))"
  proof -
    have "ip_val ((incrementIP ^^ (2 ^ ?d)) (IP net)) = (?base + 2 ^ ?d) mod 2 ^ 32"
      by (simp add: ip_val_funpow_incrementIP len)
    then show ?thesis
      using block_next[OF dlt blt al] p
      by (simp add: Contains_v4[OF len m] len)
  qed
  have "CIDRtoListIP_loop net (IP net) acc =
      Some (acc @ map (\<lambda>k. IP_String ((incrementIP ^^ k) (IP net))) [0..<2 ^ ?d])"
    by (rule CIDRtoListIP_loop_steps[OF inside outside])
  then show ?thesis by (simp add: funpow_incrementIP_eq len)
qed

lemma diverge_v4:
  assumes len: "length (IP net) = 4" and m: "Mask net = CIDRMask_loop 4 0" and l: "length ip = 4"
  shows "CIDRtoListIP_loop net ip acc = None"
proof (rule CIDRtoListIP_loop_diverges)
  fix k
  have lk: "length ((incrementIP ^^ k) ip) = 4" using l by simp
  have "ip_val ((incrementIP ^^ k) ip) < 2 ^ 32" using ip_val_lt[of "(incrementIP ^^ k) ip"] lk by simp
  moreover have "ip_val (IP net) < 2 ^ 32" using ip_val_lt[of "IP net"] len by simp
  ultimately show "Contains net ((incrementIP ^^ k) ip)"
    using Contains_v4[OF len m _ lk] by simp
qed

lemma div_by_parts:
  fixes x :: nat
  assumes "d \<le> 32"
  shows "x div 2 ^ d = (x div 2 ^ 32) * 2 ^ (32 - d) + (x mod 2 ^ 32) div 2 ^ d"
proof -
  have p: "(2::nat) ^ 32 = 2 ^ (32 - d) * 2 ^ d" using assms by (simp flip: power_add)
  have "x = (x div 2 ^ 32) * 2 ^ 32 + x mod 2 ^ 32" by simp
  then have "x div 2 ^ d = ((x div 2 ^ 32) * 2 ^ (32 - d) * 2 ^ d + x mod 2 ^ 32) div 2 ^ d"
    by (simp only: p mult.assoc)
  also have "\<dots> = (x div 2 ^ 32) * 2 ^ (32 - d) + (x mod 2 ^ 32) div 2 ^ d"
    by simp
  finally show ?thesis .
qed

lemma div_coarser:
  fixes x y :: nat
  assumes "d \<le> e" "x div 2 ^ d = y div 2 ^ d"
  shows "x div 2 ^ e = y div 2 ^ e"
proof -
  have p: "(2::nat) ^ e = 2 ^ d * 2 ^ (e - d)" using assms(1) by (simp flip: power_add)
  show ?thesis using assms(2) by (simp only: p div_mult2_eq)
qed

lemma aligned_v4_mapped:
  fixes v :: nat
  assumes "2 ^ d dvd v" "v div 2 ^ 32 = 0xffff"
  shows "d \<le> 32"
proof (rule ccontr)
  assume "\<not> d \<le> 32"
  then have d: "d = 32 + Suc (d - 33)" by simp
  obtain c where "v = c * 2 ^ d" using assms(1) by (auto simp: dvd_def mult.commute)
  moreover have "(2::nat) ^ d = 2 ^ Suc (d - 33) * 2 ^ 32"
    by (subst d) (simp only: power_add mult.commute)
  ultimately have "v = c * 2 ^ Suc (d - 33) * 2 ^ 32" by (simp only: mult.assoc)
  then have "v div 2 ^ 32 = 2 * (c * 2 ^ (d - 33))" by simp
  then have "even (v div 2 ^ 32)" by simp
  then show False using assms(2) by simp
qed

lemma Contains_v6:
  assumes len: "length (IP net) = 16" and m: "Mask net = CIDRMask_loop 16 p" and p: "p \<le> 128"
    and l: "length ip = 16" and al: "2 ^ (128 - p) dvd ip_val (IP net)"
  shows "Contains net ip \<longleftrightarrow>
    ip_val ip div 2 ^ (128 - p) = ip_val (IP net) div 2 ^ (128 - p) \<and>
    (To4 (IP net) = None \<longrightarrow> To4 ip = None)"
proof (cases "To4 (IP net)")
  case None
  have nm: "networkNumberAndMask net = (IP net, Mask net)"
    using len m None by (simp add: networkNumberAndMask_def)
  show ?thesis
  proof (cases "To4 ip")
    case inner: None
    have "Contains net ip \<longleftrightarrow> same_network (IP net) (CIDRMask_loop 16 p) ip"
      using len l m inner by (simp add: Contains_def nm)
    also have "\<dots> \<longleftrightarrow> ip_val (IP net) div 2 ^ (8 * 16 - p) = ip_val ip div 2 ^ (8 * 16 - p)"
      using len l p by (intro same_network_cidr) simp_all
    finally show ?thesis using None inner by auto
  next
    case (Some x)
    have "length x = 4" using To4_16_Some[OF l Some] by blast
    then show ?thesis using None Some len by (simp add: Contains_def nm)
  qed
next
  case (Some nn4)
  have nn_eq: "nn4 = drop 12 (IP net)" and nn_len: "length nn4 = 4"
    and nn_val: "ip_val nn4 = ip_val (IP net) mod 2 ^ 32"
    using To4_16_Some[OF len Some] by blast+
  have v4: "ip_val (IP net) div 2 ^ 32 = 0xffff"
    using To4_16_val[OF len] Some by simp
  have d32: "128 - p \<le> 32" using aligned_v4_mapped[OF al v4] .
  then have pd: "32 - (p - 96) = 128 - p" "p - 96 \<le> 32" using p by simp_all
  have nm: "networkNumberAndMask net = (nn4, CIDRMask_loop 4 (p - 96))"
    using len m Some nn_len by (simp add: networkNumberAndMask_def drop_12_CIDRMask_loop)
  show ?thesis
  proof (cases "To4 ip")
    case None
    have "ip_val ip div 2 ^ 32 \<noteq> 0xffff" using To4_16_val[OF l] None by simp
    then have "ip_val ip div 2 ^ (128 - p) \<noteq> ip_val (IP net) div 2 ^ (128 - p)"
      using div_coarser[OF d32, of "ip_val ip" "ip_val (IP net)"] v4 by auto
    moreover have "\<not> Contains net ip"
      using None l nn_len by (simp add: Contains_def nm)
    ultimately show ?thesis by simp
  next
    case inner: (Some x)
    have x_len: "length x = 4" and x_val: "ip_val x = ip_val ip mod 2 ^ 32"
      using To4_16_Some[OF l inner] by blast+
    have x4: "ip_val ip div 2 ^ 32 = 0xffff" using To4_16_val[OF l] inner by simp
    have "Contains net ip \<longleftrightarrow> same_network nn4 (CIDRMask_loop 4 (p - 96)) x"
      using inner nn_len x_len by (simp add: Contains_def nm)
    also have "\<dots> \<longleftrightarrow> ip_val nn4 div 2 ^ (8 * 4 - (p - 96)) = ip_val x div 2 ^ (8 * 4 - (p - 96))"
      using nn_len x_len pd by (intro same_network_cidr) simp_all
    also have "\<dots> \<longleftrightarrow> (ip_val (IP net) mod 2 ^ 32) div 2 ^ (128 - p) = (ip_val ip mod 2 ^ 32) div 2 ^ (128 - p)"
      using nn_val x_val pd by simp
    also have "\<dots> \<longleftrightarrow> ip_val (IP net) div 2 ^ (128 - p) = ip_val ip div 2 ^ (128 - p)"
      using div_by_parts[OF d32, of "ip_val ip"] div_by_parts[OF d32, of "ip_val (IP net)"] v4 x4
      by simp
    finally show ?thesis using Some by auto
  qed
qed

lemma ip_val_v4_zero: "ip_val (v4InV6Prefix @ [0, 0, 0, 0]) = 0xffff * 2 ^ 32"
  by (simp add: ip_val_append ip_val_v4InV6Prefix ip_val_Cons)

lemma covers_v4_mapped_val:
  assumes len: "length (IP net) = 16" and m: "Mask net = CIDRMask_loop 16 p" and p: "p \<le> 128"
  shows "covers_v4_mapped net \<longleftrightarrow>
    To4 (IP net) = None \<and> ip_val (IP net) div 2 ^ (128 - p) = (0xffff * 2 ^ 32) div 2 ^ (128 - p)"
proof -
  have "same_network (IP net) (CIDRMask_loop 16 p) (v4InV6Prefix @ [0, 0, 0, 0]) \<longleftrightarrow>
      ip_val (IP net) div 2 ^ (8 * 16 - p) = ip_val (v4InV6Prefix @ [0, 0, 0, 0]) div 2 ^ (8 * 16 - p)"
    using len p by (intro same_network_cidr) simp_all
  then show ?thesis using m by (simp add: covers_v4_mapped_def ip_val_v4_zero)
qed

lemma enumerate_v6:
  assumes len: "length (IP net) = 16" and m: "Mask net = CIDRMask_loop 16 p" and p: "p \<le> 128"
    and al: "2 ^ (128 - p) dvd ip_val (IP net)" and nc: "\<not> covers_v4_mapped net"
  shows "CIDRtoListIP_loop net (IP net) acc =
    Some (acc @ map (\<lambda>k. IP_String (ip_of_nat 16 (ip_val (IP net) + k))) [0..<2 ^ (128 - p)])"
proof -
  let ?d = "128 - p" and ?base = "ip_val (IP net)"
  have blt: "?base < 2 ^ 128" using ip_val_lt[of "IP net"] len by simp
  have dle: "?d \<le> 128" by simp
  have p1: "1 \<le> p"
  proof (rule ccontr)
    assume "\<not> 1 \<le> p"
    then have p0: "p = 0" by simp
    then have "?base = 0" using al blt by (auto simp: dvd_def)
    then have "To4 (IP net) = None" using To4_16_val[OF len] by auto
    then have "covers_v4_mapped net"
      using covers_v4_mapped_val[OF len m p] p0 \<open>?base = 0\<close> by simp
    then show False using nc by simp
  qed
  then have dlt: "?d < 128" using p by simp
  have inside: "Contains net ((incrementIP ^^ k) (IP net))" if "k < 2 ^ ?d" for k
  proof -
    let ?ip = "(incrementIP ^^ k) (IP net)"
    have lk: "length ?ip = 16" using len by simp
    have "ip_val ?ip = (?base + k) mod 2 ^ 128"
      by (simp add: ip_val_funpow_incrementIP len)
    also have "\<dots> = ?base + k" using block_inside(1)[OF dle blt al that] .
    finally have v: "ip_val ?ip = ?base + k" .
    have eq: "ip_val ?ip div 2 ^ ?d = ?base div 2 ^ ?d"
      using block_inside(2)[OF dle blt al that] v by simp
    have "To4 ?ip = None" if none: "To4 (IP net) = None"
    proof (rule ccontr)
      assume "To4 ?ip \<noteq> None"
      then have m4: "ip_val ?ip div 2 ^ 32 = 0xffff" using To4_16_val[OF lk] by simp
      have n4: "?base div 2 ^ 32 \<noteq> 0xffff" using To4_16_val[OF len] none by simp
      show False
      proof (cases "?d \<le> 32")
        case True
        from div_coarser[OF True eq] m4 n4 show False by simp
      next
        case False
        then have "32 \<le> ?d" by simp
        have "ip_val ?ip div 2 ^ ?d = (0xffff * 2 ^ 32) div 2 ^ ?d"
          by (rule div_coarser[OF \<open>32 \<le> ?d\<close>]) (use m4 in simp)
        then have "covers_v4_mapped net"
          using covers_v4_mapped_val[OF len m p] none eq by simp
        then show False using nc by simp
      qed
    qed
    then show ?thesis using eq by (simp add: Contains_v6[OF len m p lk al])
  qed
  have outside: "\<not> Contains net ((incrementIP ^^ (2 ^ ?d)) (IP net))"
  proof -
    let ?ip = "(incrementIP ^^ (2 ^ ?d)) (IP net)"
    have lk: "length ?ip = 16" using len by simp
    have "ip_val ?ip = (?base + 2 ^ ?d) mod 2 ^ 128"
      by (simp add: ip_val_funpow_incrementIP len)
    then show ?thesis
      using block_next[OF dlt blt al] by (simp add: Contains_v6[OF len m p lk al])
  qed
  have "CIDRtoListIP_loop net (IP net) acc =
      Some (acc @ map (\<lambda>k. IP_String ((incrementIP ^^ k) (IP net))) [0..<2 ^ ?d])"
    by (rule CIDRtoListIP_loop_steps[OF inside outside])
  then show ?thesis by (simp add: funpow_incrementIP_eq len)
qed

subsection \<open>What \<^verbatim>\<open>ParseCIDR\<close> returns\<close>

lemma length_parseIPv4Fields_loop:
  "parseIPv4Fields_loop s first prev v pos digLen flds = Some r \<Longrightarrow> length r = length flds"
  by (induction s first prev v pos digLen flds rule: parseIPv4Fields_loop.induct)
     (auto simp: Let_def split: if_splits)

lemma length_parseIPv4Fields: "parseIPv4Fields s = Some r \<Longrightarrow> length r = 4"
  using length_parseIPv4Fields_loop[of s True None 0 0 0 "[0, 0, 0, 0]" r]
  by (simp add: parseIPv4Fields_def)

lemma length_parseIPv6_body_Break:
  "parseIPv6_body s i ip e = Break (s', i', ip', e') \<Longrightarrow> length ip = 16 \<Longrightarrow> length ip' = 16"
  by (auto simp: parseIPv6_body_def Let_def
      split: option.splits prod.splits if_splits dest!: length_parseIPv4Fields)

lemma length_parseIPv6_body_Continue:
  "parseIPv6_body s i ip e = Continue (s', ip', e') \<Longrightarrow> length ip' = length ip"
  by (auto simp: parseIPv6_body_def Let_def split: option.splits prod.splits if_splits)

declare parseIPv6_loop.simps [simp del]

lemma length_parseIPv6_loop:
  "parseIPv6_loop s i ip e = Some (s', i', ip', e') \<Longrightarrow> length ip = 16 \<Longrightarrow> length ip' = 16"
proof (induction s i ip e rule: parseIPv6_loop.induct)
  case (1 s i ip ellipsis)
  show ?case
  proof (cases "i < 16")
    case False
    with "1.prems" show ?thesis by (subst (asm) parseIPv6_loop.simps) simp
  next
    case True
    show ?thesis
    proof (cases "parseIPv6_body s i ip ellipsis")
      case Error
      with True "1.prems" show ?thesis by (subst (asm) parseIPv6_loop.simps) simp
    next
      case (Break r)
      with True "1.prems"(1) have "r = (s', i', ip', e')"
        by (subst (asm) parseIPv6_loop.simps) simp
      with Break "1.prems"(2) show ?thesis
        using length_parseIPv6_body_Break by blast
    next
      case (Continue c)
      obtain s1 ip1 e1 where c: "c = (s1, ip1, e1)" by (cases c) auto
      have l1: "length ip1 = 16"
        using length_parseIPv6_body_Continue[of s i ip ellipsis s1 ip1 e1] Continue c "1.prems"(2)
        by simp
      have rec: "parseIPv6_loop s1 (i + 2) ip1 e1 = Some (s', i', ip', e')"
        using True Continue c "1.prems"(1) by (subst (asm) parseIPv6_loop.simps) simp
      have t: "\<not> \<not> i < 16" using True by simp
      have b: "parseIPv6_body s i ip ellipsis = Continue (s1, ip1, e1)"
        using Continue c by simp
      show ?thesis
        by (rule "1.IH"[OF t b refl refl rec l1])
    qed
  qed
qed

lemma length_foldl_move: "length (foldl (\<lambda>a j. a[j + n := a ! j]) ip js) = length ip"
  by (induction js arbitrary: ip) simp_all

lemma length_foldl_clear: "length (foldl (\<lambda>a k. a[k := c]) ip js) = length ip"
  by (induction js arbitrary: ip) simp_all

lemma length_expand_ellipsis [simp]: "length (expand_ellipsis ip i e) = length ip"
  by (simp add: expand_ellipsis_def Let_def length_foldl_move length_foldl_clear)

lemma parseIPv6_shape:
  "parseIPv6 s = Some a \<Longrightarrow> \<exists>b z. a = Addr6 b z \<and> length b = 16"
  by (auto simp: parseIPv6_def Let_def
      split: prod.splits option.splits list.splits if_splits dest: length_parseIPv6_loop)

lemma ParseAddr_scan_shape:
  "ParseAddr_scan s t = Some a \<Longrightarrow>
   (\<exists>b. a = Addr4 b \<and> length b = 4) \<or> (\<exists>b z. a = Addr6 b z \<and> length b = 16)"
  by (induction t) (auto simp: parseIPv4_def split: if_splits dest: parseIPv6_shape length_parseIPv4Fields)

lemma ParseAddr_shape:
  "ParseAddr s = Some a \<Longrightarrow>
   (\<exists>b. a = Addr4 b \<and> length b = 4) \<or> (\<exists>b z. a = Addr6 b z \<and> length b = 16)"
  unfolding ParseAddr_def by (rule ParseAddr_scan_shape)

lemma Mask_IP_v4: "length b = 4 \<Longrightarrow> length m = 4 \<Longrightarrow> Mask_IP (v4InV6Prefix @ b) m = map2 (AND) b m"
  by (simp add: Mask_IP_def Let_def)

lemma Mask_IP_v6: "length ip = 16 \<Longrightarrow> length m = 16 \<Longrightarrow> Mask_IP ip m = map2 (AND) ip m"
  by (simp add: Mask_IP_def Let_def)

lemma CIDRMask_32: "0 \<le> n \<Longrightarrow> n \<le> 32 \<Longrightarrow> CIDRMask n 32 = CIDRMask_loop 4 (nat n)"
  by (simp add: CIDRMask_def)

lemma CIDRMask_128: "0 \<le> n \<Longrightarrow> n \<le> 128 \<Longrightarrow> CIDRMask n 128 = CIDRMask_loop 16 (nat n)"
  by (simp add: CIDRMask_def)

lemma ParseCIDR_shape:
  assumes "ParseCIDR s = Some (ip, net)"
  shows "Mask_IP ip (Mask net) = IP net \<and>
    ((\<exists>b. length b = 4 \<and> length (Mask net) = 4 \<and> IP net = map2 (AND) b (Mask net)) \<or>
     (length ip = 16 \<and> length (Mask net) = 16 \<and> IP net = map2 (AND) ip (Mask net)))"
proof -
  from assms obtain addr msk a n i where
    a: "ParseAddr addr = Some a" and d: "dtoi msk = (n, i, True)"
    and n: "0 \<le> n" "n \<le> BitLen a"
    and r: "ip = As16 a" "net = \<lparr>IP = Mask_IP (As16 a) (CIDRMask n (BitLen a)), Mask = CIDRMask n (BitLen a)\<rparr>"
    by (auto simp: ParseCIDR_def Let_def split: prod.splits option.splits if_splits)
  from ParseAddr_shape[OF a] show ?thesis
  proof
    assume "\<exists>b. a = Addr4 b \<and> length b = 4"
    then obtain b where b: "a = Addr4 b" "length b = 4" by blast
    then show ?thesis using n r by (auto simp: CIDRMask_32 Mask_IP_v4)
  next
    assume "\<exists>b z. a = Addr6 b z \<and> length b = 16"
    then obtain b z where b: "a = Addr6 b z" "length b = 16" by blast
    then show ?thesis using n r by (auto simp: CIDRMask_128 Mask_IP_v6)
  qed
qed

lemma CIDRMask_cases:
  assumes "CIDRMask (int p) (int bits) = m" "length m = 4 \<or> length m = 16"
  shows "(bits = 32 \<or> bits = 128) \<and> p \<le> bits \<and> length m = bits div 8 \<and> m = CIDRMask_loop (bits div 8) p"
  using assms by (auto simp: CIDRMask_def nat_div_distrib split: if_splits)

subsection \<open>\<^verbatim>\<open>CIDRtoListIP\<close> on a parsed CIDR\<close>

lemma enumerate_v6_truncated:
  assumes len: "length (IP net) = 16" and m: "Mask net = CIDRMask_loop 16 p" and p: "p \<le> 128"
    and al: "2 ^ (128 - p) dvd ip_val (IP net)" and cov: "covers_v4_mapped net"
  shows "CIDRtoListIP_loop net (IP net) acc =
    Some (acc @ map (\<lambda>k. IP_String (ip_of_nat 16 (ip_val (IP net) + k)))
                  [0..<0xffff * 2 ^ 32 - ip_val (IP net)])"
proof -
  let ?d = "128 - p" and ?base = "ip_val (IP net)" and ?V = "0xffff * 2 ^ 32 :: nat"
  have none: "To4 (IP net) = None" and eqV: "?base div 2 ^ ?d = ?V div 2 ^ ?d"
    using cov covers_v4_mapped_val[OF len m p] by simp_all
  have n4: "?base div 2 ^ 32 \<noteq> 0xffff" using To4_16_val[OF len] none by simp
  have dgt: "\<not> ?d \<le> 32"
  proof
    assume "?d \<le> 32"
    from div_coarser[OF this eqV] n4 show False by simp
  qed
  obtain q where q: "?base = q * 2 ^ ?d" using al by (auto simp: dvd_def mult.commute)
  have "?base = (?V div 2 ^ ?d) * 2 ^ ?d" using q eqV by simp
  then have ble: "?base \<le> ?V" by simp
  have "?base \<noteq> ?V" using n4 by auto
  with ble have blt: "?base < ?V" by simp
  have Vlt: "?V < (2::nat) ^ 128" by simp
  have inside: "Contains net ((incrementIP ^^ k) (IP net))" if "k < ?V - ?base" for k
  proof -
    let ?ip = "(incrementIP ^^ k) (IP net)"
    have lk: "length ?ip = 16" using len by simp
    have kV: "?base + k < ?V" using that by simp
    have "ip_val ?ip = (?base + k) mod 2 ^ 128"
      by (simp add: ip_val_funpow_incrementIP len)
    also have "\<dots> = ?base + k" using kV Vlt by simp
    finally have v: "ip_val ?ip = ?base + k" .
    have "?base div 2 ^ ?d \<le> (?base + k) div 2 ^ ?d" by (rule div_le_mono) simp
    moreover have "(?base + k) div 2 ^ ?d \<le> ?V div 2 ^ ?d" by (rule div_le_mono) (use kV in simp)
    ultimately have eq: "ip_val ?ip div 2 ^ ?d = ?base div 2 ^ ?d" using eqV v by simp
    have "(?base + k) div 2 ^ 32 < 0xffff" using kV by (simp add: div_less_iff_less_mult)
    then have "To4 ?ip = None" using To4_16_val[OF lk] v by auto
    then show ?thesis using eq by (simp add: Contains_v6[OF len m p lk al])
  qed
  have outside: "\<not> Contains net ((incrementIP ^^ (?V - ?base)) (IP net))"
  proof -
    let ?ip = "(incrementIP ^^ (?V - ?base)) (IP net)"
    have lk: "length ?ip = 16" using len by simp
    have "ip_val ?ip = (?base + (?V - ?base)) mod 2 ^ 128"
      by (simp only: ip_val_funpow_incrementIP len) simp
    also have "?base + (?V - ?base) = ?V" using ble by simp
    finally have "ip_val ?ip = ?V" using Vlt by simp
    then have "To4 ?ip \<noteq> None" using To4_16_val[OF lk] by simp
    then show ?thesis using none Contains_v6[OF len m p lk al] by simp
  qed
  have "CIDRtoListIP_loop net (IP net) acc =
      Some (acc @ map (\<lambda>k. IP_String ((incrementIP ^^ k) (IP net))) [0..<?V - ?base])"
    by (rule CIDRtoListIP_loop_steps[OF inside outside])
  then show ?thesis by (simp add: funpow_incrementIP_eq len)
qed

lemma masked_aligned:
  assumes "length b = l" "p \<le> 8 * l"
  shows "2 ^ (8 * l - p) dvd ip_val (map2 (AND) b (CIDRMask_loop l p))"
  using ip_val_masked[OF assms] by simp

lemma CIDRtoListIP_parsed:
  "ParseCIDR cidr = Some (ip, ipNet) \<Longrightarrow>
   CIDRtoListIP cidr = map_option Inr (CIDRtoListIP_loop ipNet (IP ipNet) [])"
  using ParseCIDR_shape[of cidr ip ipNet] by (simp add: CIDRtoListIP_def)

text \<open>
  A CIDR of prefix length at least 1 that is not one of the IPv6 blocks covering
  \<^verbatim>\<open>::ffff:0:0/96\<close> is expanded in full: the result is the list of the \<open>2 ^ (bits - p)\<close>
  addresses from the network number upwards, in ascending order, printed.
\<close>

lemma CIDRtoListIP_block:
  assumes parse: "ParseCIDR cidr = Some (ip, ipNet)"
    and mask: "Mask ipNet = CIDRMask (int p) (int bits)"
    and p1: "1 \<le> p" and nc: "\<not> covers_v4_mapped ipNet"
  shows "CIDRtoListIP cidr =
    Some (Inr (map (\<lambda>k. IP_String (ip_of_nat (bits div 8) (ip_val (IP ipNet) + k)))
                   [0..<2 ^ (bits - p)]))"
proof -
  note sh = ParseCIDR_shape[OF parse]
  from sh have lm: "length (Mask ipNet) = 4 \<or> length (Mask ipNet) = 16" by auto
  from CIDRMask_cases[OF mask[symmetric] lm]
  have bits: "bits = 32 \<or> bits = 128" and pb: "p \<le> bits"
    and lb: "length (Mask ipNet) = bits div 8" and ml: "Mask ipNet = CIDRMask_loop (bits div 8) p"
    by simp_all
  from bits show ?thesis
  proof
    assume b32: "bits = 32"
    then have l4: "length (Mask ipNet) = 4" using lb by simp
    with sh obtain b where b: "length b = 4" "IP ipNet = map2 (AND) b (Mask ipNet)" by auto
    have len: "length (IP ipNet) = 4" using b l4 by simp
    have m: "Mask ipNet = CIDRMask_loop 4 p" using ml b32 by simp
    have al: "2 ^ (32 - p) dvd ip_val (IP ipNet)"
      using masked_aligned[of b 4 p] b m pb b32 by simp
    show ?thesis
      using enumerate_v4[OF len m p1 _ al, of "[]"] pb b32
      by (simp add: CIDRtoListIP_parsed[OF parse])
  next
    assume b128: "bits = 128"
    then have l16: "length (Mask ipNet) = 16" using lb by simp
    with sh have b: "length ip = 16" "IP ipNet = map2 (AND) ip (Mask ipNet)" by auto
    have len: "length (IP ipNet) = 16" using b l16 by simp
    have m: "Mask ipNet = CIDRMask_loop 16 p" using ml b128 by simp
    have al: "2 ^ (128 - p) dvd ip_val (IP ipNet)"
      using masked_aligned[of ip 16 p] b m pb b128 by simp
    show ?thesis
      using enumerate_v6[OF len m _ al nc, of "[]"] pb b128
      by (simp add: CIDRtoListIP_parsed[OF parse])
  qed
qed

text \<open>An IPv4 CIDR of prefix length 0: the counter wraps around inside the network.\<close>

lemma CIDRtoListIP_v4_whole_space:
  assumes parse: "ParseCIDR cidr = Some (ip, ipNet)" and mask: "Mask ipNet = CIDRMask 0 32"
  shows "CIDRtoListIP cidr = None"
proof -
  note sh = ParseCIDR_shape[OF parse]
  have m: "Mask ipNet = CIDRMask_loop 4 0" using mask by (simp add: CIDRMask_def)
  then have l4: "length (Mask ipNet) = 4" by simp
  with sh obtain b where b: "length b = 4" "IP ipNet = map2 (AND) b (Mask ipNet)" by auto
  have len: "length (IP ipNet) = 4" using b l4 by simp
  show ?thesis
    using diverge_v4[OF len m len, of "[]"] by (simp add: CIDRtoListIP_parsed[OF parse])
qed

text \<open>
  An IPv6 block covering \<^verbatim>\<open>::ffff:0:0/96\<close>: the list ends before the first IPv4-mapped
  address, which \<^verbatim>\<open>Contains\<close> refuses.
\<close>

lemma CIDRtoListIP_v6_truncated:
  assumes parse: "ParseCIDR cidr = Some (ip, ipNet)"
    and mask: "Mask ipNet = CIDRMask (int p) 128"
    and cov: "covers_v4_mapped ipNet"
  shows "CIDRtoListIP cidr =
    Some (Inr (map (\<lambda>k. IP_String (ip_of_nat 16 (ip_val (IP ipNet) + k)))
                   [0..<0xffff * 2 ^ 32 - ip_val (IP ipNet)]))"
proof -
  note sh = ParseCIDR_shape[OF parse]
  have l16: "length (Mask ipNet) = 16" using cov by (simp add: covers_v4_mapped_def)
  from CIDRMask_cases[of p 128 "Mask ipNet"] mask l16
  have pb: "p \<le> 128" and m: "Mask ipNet = CIDRMask_loop 16 p" by simp_all
  from sh l16 have b: "length ip = 16" "IP ipNet = map2 (AND) ip (Mask ipNet)" by auto
  have len: "length (IP ipNet) = 16" using b l16 by simp
  have al: "2 ^ (128 - p) dvd ip_val (IP ipNet)"
    using masked_aligned[of ip 16 p] b m pb by simp
  show ?thesis
    using enumerate_v6_truncated[OF len m pb al cov, of "[]"]
    by (simp add: CIDRtoListIP_parsed[OF parse])
qed

subsection \<open>The claims about \<^verbatim>\<open>CIDRtoListIP\<close>\<close>

text \<open>The two expansions the spec lists (section 8, scenario 6).\<close>

lemma CIDRtoListIP_examples:
  "CIDRtoListIP ''104.16.0.0/30'' =
     Some (Inr [''104.16.0.0'', ''104.16.0.1'', ''104.16.0.2'', ''104.16.0.3'']) \<and>
   CIDRtoListIP ''2606:4700::/126'' =
     Some (Inr [''2606:4700::'', ''2606:4700::1'', ''2606:4700::2'', ''2606:4700::3''])"
  by code_simp

lemma ParseCIDR_whole_IPv4:
  "ParseCIDR ''0.0.0.0/0'' =
     Some ([0, 0, 0, 0, 0, 0, 0, 0, 0, 0, 0xff, 0xff, 0, 0, 0, 0], \<lparr>IP = [0, 0, 0, 0], Mask = CIDRMask 0 32\<rparr>)"
  by code_simp

text \<open>
  C1. The claim is that \<^verbatim>\<open>CIDRtoListIP\<close> expands every valid CIDR into the list of all
  addresses of its block, in ascending order. \<open>CIDRtoListIP_block\<close> proves this for the
  blocks of prefix length at least 1 outside \<open>covers_v4_mapped\<close>, and
  \<open>CIDRtoListIP_examples\<close> the two expansions the claim names. On the valid CIDR
  \<^verbatim>\<open>0.0.0.0/0\<close> the function returns nothing at all: every 4-byte address is in the
  network, \<^verbatim>\<open>incrementIP\<close> wraps from 255.255.255.255 to 0.0.0.0, and the loop never ends.
\<close>

theorem CIDRtoListIP_whole_IPv4_never_returns:
  "CIDRtoListIP ''0.0.0.0/0'' = None"
  by (rule CIDRtoListIP_v4_whole_space[OF ParseCIDR_whole_IPv4]) simp

lemma ParseCIDR_fffe_95:
  "ParseCIDR ''::fffe:0:0/95'' =
     Some ([0, 0, 0, 0, 0, 0, 0, 0, 0, 0, 0xff, 0xfe, 0, 0, 0, 0],
           \<lparr>IP = [0, 0, 0, 0, 0, 0, 0, 0, 0, 0, 0xff, 0xfe, 0, 0, 0, 0], Mask = CIDRMask 95 128\<rparr>)"
  by code_simp

lemma covers_fffe_95:
  "covers_v4_mapped \<lparr>IP = [0, 0, 0, 0, 0, 0, 0, 0, 0, 0, 0xff, 0xfe, 0, 0, 0, 0], Mask = CIDRMask 95 128\<rparr>"
  by code_simp

lemma ip_val_fffe: "ip_val [0, 0, 0, 0, 0, 0, 0, 0, 0, 0, 0xff, 0xfe, 0, 0, 0, 0] = 0xfffe * 2 ^ 32"
  by (simp add: ip_val_def)

text \<open>
  C9. The claim is that every valid CIDR of prefix length at least 1 yields exactly
  \<open>2 ^ (bits - prefix)\<close> addresses. \<open>CIDRtoListIP_block\<close> proves that count outside
  \<open>covers_v4_mapped\<close>, and \<open>CIDRtoListIP_v4_whole_space\<close> that no IPv4 CIDR of prefix length
  0 ever returns. The valid CIDR \<^verbatim>\<open>::fffe:0:0/95\<close> has prefix length 95 and a block of
  \<open>2 ^ 33\<close> addresses, \<^verbatim>\<open>::fffe:0:0\<close> to \<^verbatim>\<open>::ffff:ffff:ffff\<close>; the function returns the first
  \<open>2 ^ 32\<close> of them. The next one is \<^verbatim>\<open>::ffff:0.0.0.0\<close>, the first IPv4-mapped address:
  \<^verbatim>\<open>Contains\<close> turns it into a 4-byte address, finds the 16-byte network number of
  another length, and answers false.
\<close>

theorem CIDRtoListIP_fffe_95_truncated:
  "\<exists>ips. CIDRtoListIP ''::fffe:0:0/95'' = Some (Inr ips) \<and> length ips = 2 ^ 32"
proof -
  have "CIDRtoListIP ''::fffe:0:0/95'' =
      Some (Inr (map (\<lambda>k. IP_String (ip_of_nat 16 (0xfffe * 2 ^ 32 + k)))
                   [0..<0xffff * 2 ^ 32 - 0xfffe * 2 ^ 32]))"
    using CIDRtoListIP_v6_truncated[OF ParseCIDR_fffe_95, of 95] covers_fffe_95
    by (simp only: IPNet.simps ip_val_fffe) simp
  then show ?thesis by simp
qed

section \<open>Properties of the API handlers\<close>

text \<open>
  C2. The claim is that the fallback list holds exactly 17 IPv4 blocks and 5 IPv6
  blocks. It holds 20 entries: 15 IPv4 blocks and 5 IPv6 blocks.
\<close>

theorem cloudflareRanges_counts:
  "length (filter is_IPv4_block cloudflareRanges) = 15 \<and>
   length (filter is_IPv6_block cloudflareRanges) = 5 \<and>
   length cloudflareRanges = 20"
  by code_simp

theorem cloudflareRanges_not_17_IPv4:
  "length (filter is_IPv4_block cloudflareRanges) \<noteq> 17"
  by code_simp

text \<open>
  C7. A POST to \<^verbatim>\<open>/api/v1/proxy/stop\<close> is answered 200 when \<^verbatim>\<open>StopProxy\<close> returns no error,
  and 404 with the error's message when it returns one; a POST to
  \<^verbatim>\<open>/api/v1/proxy/rotate\<close> is answered 200 when \<^verbatim>\<open>RotateProxy\<close> returns no error, and 409
  with the error's message when it returns one. The manager's state after the call is
  the state the handler leaves.
\<close>

theorem proxy_stop_rotate_responses:
  "route ''/api/v1/proxy/stop'' = Some HandleProxyStop \<and>
   route ''/api/v1/proxy/rotate'' = Some HandleProxyRotate \<and>
   (Method r = ''POST'' \<longrightarrow>
      (\<forall>st'. StopProxy manager st = (None, st') \<longrightarrow>
         (\<exists>d. handleProxyStop manager r st = (WriteJSONResponse 200 d :: 'r Response, st'))) \<and>
      (\<forall>err st'. StopProxy manager st = (Some err, st') \<longrightarrow>
         handleProxyStop manager r st = (WriteJSONError err 404 :: 'r Response, st')) \<and>
      (\<forall>st'. RotateProxy manager st = (None, st') \<longrightarrow>
         (\<exists>d. handleProxyRotate manager r st = (WriteJSONResponse 200 d :: 'r Response, st'))) \<and>
      (\<forall>err st'. RotateProxy manager st = (Some err, st') \<longrightarrow>
         handleProxyRotate manager r st = (WriteJSONError err 409 :: 'r Response, st')))"
  by (simp add: route_def RegisterRoutes_def handleProxyStop_def handleProxyRotate_def
      MethodPost_def StatusOK_def StatusNotFound_def StatusConflict_def)

theorem proxy_stop_rotate_responses_witness:
  "handleProxyStop
     \<lparr>StopProxy = (\<lambda>st::nat. (Some ''no proxy instance is running'', st)),
      RotateProxy = (\<lambda>st. (None, Suc st))\<rparr> \<lparr>Method = ''POST''\<rparr> 0
     = (WriteJSONError ''no proxy instance is running'' 404 :: unit Response, 0) \<and>
   (\<exists>d. handleProxyRotate
     \<lparr>StopProxy = (\<lambda>st::nat. (Some ''no proxy instance is running'', st)),
      RotateProxy = (\<lambda>st. (None, Suc st))\<rparr> \<lparr>Method = ''POST''\<rparr> 0
     = (WriteJSONResponse 200 d :: unit Response, 1))"
  using proxy_stop_rotate_responses
    [where manager = "\<lparr>StopProxy = (\<lambda>st::nat. (Some ''no proxy instance is running'', st)),
                        RotateProxy = (\<lambda>st. (None, Suc st))\<rparr>"
       and r = "\<lparr>Method = ''POST''\<rparr>" and st = 0 and 'r = unit]
  by simp

subsection \<open>\<^verbatim>\<open>handleCfScannerRanges\<close>\<close>

lemma foldl_record_fetch_error:
  "firstError s \<noteq> None \<Longrightarrow> firstError (foldl (record_fetch get) s sched) \<noteq> None"
  by (induction sched arbitrary: s) (auto simp: record_fetch_def split: fetch.splits)

lemma foldl_record_fetch_failed:
  "\<exists>u\<in>set sched. fetch_failed (get u) \<Longrightarrow> firstError (foldl (record_fetch get) s sched) \<noteq> None"
proof (induction sched arbitrary: s)
  case Nil
  then show ?case by simp
next
  case (Cons u sched)
  show ?case
  proof (cases "fetch_failed (get u)")
    case True
    then have "firstError (record_fetch get s u) \<noteq> None"
      by (auto simp: record_fetch_def fetch_failed_def split: fetch.splits)
    then show ?thesis by (simp add: foldl_record_fetch_error)
  next
    case False
    with Cons.prems have "\<exists>u\<in>set sched. fetch_failed (get u)" by auto
    then show ?thesis using Cons.IH by simp
  qed
qed

lemma foldl_record_fetch_ok:
  "\<forall>u\<in>set sched. \<not> fetch_failed (get u) \<Longrightarrow>
   foldl (record_fetch get) s sched =
     s\<lparr>allRanges := allRanges s @ concat (map (\<lambda>u. fetched_ranges (get u)) sched)\<rparr>"
  by (induction sched arbitrary: s)
     (auto simp: record_fetch_def fetch_failed_def split: fetch.splits)

text \<open>
  C3, as amended. On a GET, whatever the order in which the fetches finish: the handler
  answers 200 with the hardcoded fallback list as soon as the fetch of at least one URL
  fails, and with the live ranges only when the fetch of every URL succeeds; the live
  ranges are then the lines of all bodies, in the order the fetches finished.
\<close>

theorem handleCfScannerRanges_fallback:
  assumes "Method r = ''GET''" and "schedule sched"
  shows "fst (handleCfScannerRanges get sched r) =
    (WriteJSONResponse 200
      (MapStrings [(''ranges'',
         if \<exists>u\<in>set cloudflareRangesLink. fetch_failed (get u) then cloudflareRanges
         else concat (map (\<lambda>u. fetched_ranges (get u)) sched))]) :: 'r Response)"
proof (cases "\<exists>u\<in>set cloudflareRangesLink. fetch_failed (get u)")
  case True
  then have "\<exists>u\<in>set sched. fetch_failed (get u)" using assms(2) by (simp add: schedule_def)
  from foldl_record_fetch_failed[OF this, of "\<lparr>allRanges = [], firstError = None\<rparr>"]
  show ?thesis using True assms(1)
    by (auto simp: handleCfScannerRanges_def fetchAndSendRanges_def Let_def MethodGet_def StatusOK_def)
next
  case False
  then have "\<forall>u\<in>set sched. \<not> fetch_failed (get u)" using assms(2) by (simp add: schedule_def)
  from foldl_record_fetch_ok[OF this, of "\<lparr>allRanges = [], firstError = None\<rparr>"]
  show ?thesis using False assms(1)
    by (simp add: handleCfScannerRanges_def fetchAndSendRanges_def Let_def MethodGet_def StatusOK_def)
qed

theorem handleCfScannerRanges_fallback_witness:
  "fst (handleCfScannerRanges
          (\<lambda>u. if u = ''https://www.cloudflare.com/ips-v4''
                then Body ([CHR 0xC2, CHR 0xA0] @ ''192.0.2.0/24'' @ [CHR 0x0A] @
                           ''198.51.100.0/24'' @ [CHR 0xC2, CHR 0x85])
                else Body (''2001:db8::/32'' @ [CHR 0x0A]))
          [''https://www.cloudflare.com/ips-v6'', ''https://www.cloudflare.com/ips-v4'']
          \<lparr>Method = ''GET''\<rparr>)
     = (WriteJSONResponse 200
          (MapStrings [(''ranges'', [''2001:db8::/32'', ''192.0.2.0/24'', ''198.51.100.0/24''])])
        :: unit Response)"
  using handleCfScannerRanges_fallback
    [of "\<lparr>Method = ''GET''\<rparr>"
        "[''https://www.cloudflare.com/ips-v6'', ''https://www.cloudflare.com/ips-v4'']"
        "\<lambda>u. if u = ''https://www.cloudflare.com/ips-v4''
              then Body ([CHR 0xC2, CHR 0xA0] @ ''192.0.2.0/24'' @ [CHR 0x0A] @
                         ''198.51.100.0/24'' @ [CHR 0xC2, CHR 0x85])
              else Body (''2001:db8::/32'' @ [CHR 0x0A])", where 'r = unit]
  by (simp add: schedule_def cloudflareRangesLink_def fetch_failed_def TrimSpace_def
      TrimLeft.simps TrimRight.simps leading_space_def trailing_space_def space_runes_def
      insert_commute)

text \<open>
  C3, as claimed, fails: the fetch of the IPv4 list succeeds and the fetch of the IPv6
  list fails, and the answer is the fallback list, without the range that was fetched.
\<close>

theorem handleCfScannerRanges_one_fetch_fails:
  "schedule cloudflareRangesLink \<and>
   \<not> fetch_failed ((\<lambda>u. if u = ''https://www.cloudflare.com/ips-v4''
                           then Body (''192.0.2.0/24'' @ [CHR 0x0A]) else GetFailed ''timeout'')
                      ''https://www.cloudflare.com/ips-v4'') \<and>
   fst (handleCfScannerRanges
          (\<lambda>u. if u = ''https://www.cloudflare.com/ips-v4''
                then Body (''192.0.2.0/24'' @ [CHR 0x0A]) else GetFailed ''timeout'')
          cloudflareRangesLink \<lparr>Method = ''GET''\<rparr>)
     = (WriteJSONResponse 200 (MapStrings [(''ranges'', cloudflareRanges)]) :: unit Response) \<and>
   ''192.0.2.0/24'' \<notin> set cloudflareRanges"
  by (simp add: schedule_def cloudflareRangesLink_def fetch_failed_def handleCfScannerRanges_def
      fetchAndSendRanges_def record_fetch_def MethodGet_def StatusOK_def Let_def cloudflareRanges_def)

section \<open>Properties of the WebSocket consumer\<close>

lemma received_append: "received (es @ fs) = received es @ received fs"
  by (induction es rule: received.induct) simp_all

lemma flush_delivers:
  "delivered (flushHttpResultBuffer s) = delivered s @ httpResultBuffer s \<and>
   httpResultBuffer (flushHttpResultBuffer s) = [] \<and>
   httpResultTimer (flushHttpResultBuffer s) = httpResultTimer s"
  by (simp add: flushHttpResultBuffer_def delivered_def)

lemma stop_delivers:
  "delivered (stopHttpResultBatching s) = delivered s @ httpResultBuffer s \<and>
   httpResultBuffer (stopHttpResultBatching s) = [] \<and>
   httpResultTimer (stopHttpResultBatching s) = None"
  by (simp add: stopHttpResultBatching_def flushHttpResultBuffer_def delivered_def)

lemma result_buffered:
  "delivered (handleMessage (Some (Http_result d)) s) = delivered s \<and>
   httpResultBuffer (handleMessage (Some (Http_result d)) s) = httpResultBuffer s @ [d] \<and>
   httpResultTimer (handleMessage (Some (Http_result d)) s) =
     (case httpResultTimer s of None \<Rightarrow> Some BATCH_INTERVAL | Some t \<Rightarrow> Some t)"
  by (simp add: startHttpResultBatching_def delivered_def Let_def split: option.splits)

lemma step_inv:
  assumes "batching_inv s"
  shows "batching_inv (step s e) \<and>
         delivered (step s e) @ httpResultBuffer (step s e) =
           delivered s @ httpResultBuffer s @ received [e]"
proof (cases e)
  case (Message m)
  show ?thesis
  proof (cases m)
    case None
    with Message assms show ?thesis by simp
  next
    case (Some msg)
    with Message assms show ?thesis
      using result_buffered[of _ s] stop_delivers[of s]
      by (cases msg) (auto simp: batching_inv_def split: option.splits)
  qed
next
  case Tick
  with assms show ?thesis using flush_delivers[of s] by (auto simp: batching_inv_def)
next
  case Close
  with assms show ?thesis using stop_delivers[of s] by (auto simp: batching_inv_def)
next
  case Disconnect
  with assms show ?thesis using stop_delivers[of s] by (auto simp: batching_inv_def)
qed

lemma run_inv:
  "batching_inv (run es) \<and> delivered (run es) @ httpResultBuffer (run es) = received es"
proof (induction es rule: rev_induct)
  case Nil
  show ?case by (simp add: run_def new_service_def batching_inv_def delivered_def)
next
  case (snoc e es)
  have r: "run (es @ [e]) = step (run es) e" by (simp add: run_def)
  from snoc step_inv[of "run es" e] show ?case
    by (simp add: r received_append)
qed

text \<open>
  C8. An \<^verbatim>\<open>http_result\<close> message is appended to the buffer, nothing is handed to the store
  yet, and the interval timer is armed; the timer's period is 250 ms. An
  \<^verbatim>\<open>http_test_status\<close> message stops the timer and hands the whole buffer to the store; a
  timer tick hands the whole buffer to the store. After any sequence of messages, ticks,
  closes and disconnects, the results handed to the store followed by the buffered ones
  are exactly the results received, in their order: none is dropped and none is
  repeated; and while a result is buffered the 250 ms timer is armed, so that the next
  tick, or the next \<^verbatim>\<open>http_test_status\<close>, leaves every result received in the store.
\<close>

theorem http_result_batching:
  "BATCH_INTERVAL = 250 \<and>
   (httpResultBuffer (handleMessage (Some (Http_result d)) s) = httpResultBuffer s @ [d] \<and>
    addedBatches (handleMessage (Some (Http_result d)) s) = addedBatches s \<and>
    httpResultTimer (handleMessage (Some (Http_result d)) s) \<noteq> None) \<and>
   (httpResultTimer (handleMessage (Some (Http_test_status status)) s) = None \<and>
    httpResultBuffer (handleMessage (Some (Http_test_status status)) s) = [] \<and>
    delivered (handleMessage (Some (Http_test_status status)) s) = delivered s @ httpResultBuffer s) \<and>
   (httpResultTimer s \<noteq> None \<longrightarrow>
      httpResultBuffer (step s Tick) = [] \<and>
      delivered (step s Tick) = delivered s @ httpResultBuffer s) \<and>
   delivered (run es) @ httpResultBuffer (run es) = received es \<and>
   (httpResultBuffer (run es) \<noteq> [] \<longrightarrow> httpResultTimer (run es) = Some 250) \<and>
   delivered (step (run es) Tick) = received es \<and>
   delivered (handleMessage (Some (Http_test_status status)) (run es)) = received es"
proof -
  have a: "BATCH_INTERVAL = 250" by (simp add: BATCH_INTERVAL_def)
  have b: "httpResultBuffer (handleMessage (Some (Http_result d)) s) = httpResultBuffer s @ [d] \<and>
    addedBatches (handleMessage (Some (Http_result d)) s) = addedBatches s \<and>
    httpResultTimer (handleMessage (Some (Http_result d)) s) \<noteq> None"
    by (simp add: startHttpResultBatching_def Let_def)
  have c: "httpResultTimer (handleMessage (Some (Http_test_status status)) s) = None \<and>
    httpResultBuffer (handleMessage (Some (Http_test_status status)) s) = [] \<and>
    delivered (handleMessage (Some (Http_test_status status)) s) = delivered s @ httpResultBuffer s"
    using stop_delivers[of s] by simp
  have d: "httpResultTimer s \<noteq> None \<longrightarrow>
      httpResultBuffer (step s Tick) = [] \<and>
      delivered (step s Tick) = delivered s @ httpResultBuffer s"
    using flush_delivers[of s] by simp
  note inv = run_inv[of es]
  have e: "delivered (run es) @ httpResultBuffer (run es) = received es"
    using inv by simp
  have f: "httpResultBuffer (run es) \<noteq> [] \<longrightarrow> httpResultTimer (run es) = Some 250"
    using inv by (auto simp: batching_inv_def BATCH_INTERVAL_def)
  have g: "delivered (step (run es) Tick) = received es"
  proof (cases "httpResultBuffer (run es) = []")
    case True
    then show ?thesis using e by (simp add: flushHttpResultBuffer_def)
  next
    case False
    then have "httpResultTimer (run es) \<noteq> None" using f by simp
    then show ?thesis using flush_delivers[of "run es"] e by simp
  qed
  have h: "delivered (handleMessage (Some (Http_test_status status)) (run es)) = received es"
    using stop_delivers[of "run es"] e by simp
  from a b c d e f g h show ?thesis by blast
qed

theorem http_result_batching_witness:
  "httpResultBuffer
     (run [Message (Some (Http_result (1::nat))), Message (Some (Http_result 2)), Tick,
           Message (Some (Http_result 3))]) = [3] \<and>
   httpResultTimer
     (run [Message (Some (Http_result (1::nat))), Message (Some (Http_result 2)), Tick,
           Message (Some (Http_result 3))]) = Some 250 \<and>
   delivered
     (run [Message (Some (Http_result (1::nat))), Message (Some (Http_result 2)), Tick,
           Message (Some (Http_result 3))]) = [1, 2] \<and>
   delivered (handleMessage (Some (Http_test_status ''finished''))
     (run [Message (Some (Http_result (1::nat))), Message (Some (Http_result 2)), Tick,
           Message (Some (Http_result 3))])) = [1, 2, 3]"
  using http_result_batching
    [of 0 new_service "''finished''"
        "[Message (Some (Http_result (1::nat))), Message (Some (Http_result 2)), Tick,
          Message (Some (Http_result 3))]"]
  by (simp add: run_def new_service_def startHttpResultBatching_def stopHttpResultBatching_def
      flushHttpResultBuffer_def delivered_def BATCH_INTERVAL_def Let_def)

section \<open>Properties of the history files\<close>

subsection \<open>The reader terminates\<close>

text \<open>
  Every loop of the reader consumes input: the measures are the lengths of the line and
  of the input left.
\<close>

lemma takeWhile_shorter: "c \<in> set b \<Longrightarrow> length (takeWhile (\<lambda>x. x \<noteq> c) b) < length b"
  by (induction b) auto

lemma IndexByte_less: "IndexByte b c = Some i \<Longrightarrow> i < length b"
  by (auto simp: IndexByte_def takeWhile_shorter split: if_splits)

lemma readLine_shorter:
  "readLine inp = Some (line, rest) \<Longrightarrow>
   length rest < length inp \<and> length line + length rest \<le> length inp"
  by (auto simp: readLine_def IndexByte_def Let_def split: if_splits option.splits)

termination parseQuoted
  by (relation "measure (\<lambda>(line, rest, buf). length line + length rest)")
     (auto simp: IndexByte_def Let_def dest!: readLine_shorter split: if_splits
        intro: le_less_trans)

declare parseQuoted.simps [simp del]

lemma parseQuoted_shorter:
  "parseQuoted line rest buf = Inr (field, line', rest', again) \<Longrightarrow>
   length line' + length rest' \<le> length line + length rest \<and> length rest' \<le> length rest"
proof (induction line rest buf rule: parseQuoted.induct)
  case (1 line rest buf)
  note eq = "1.prems"
  show ?case
  proof (cases "IndexByte line QUOTE")
    case None
    have pos: "0 < length line" using None eq
      by (subst (asm) parseQuoted.simps) (simp split: if_splits)
    show ?thesis
    proof (cases "readLine rest")
      case inner: None
      have "parseQuoted [] [] (buf @ line) = Inr (field, line', rest', again)"
        using None inner pos eq by (subst (asm) parseQuoted.simps) simp
      from "1.IH"(1)[OF None pos inner this] show ?thesis by simp
    next
      case (Some lr)
      obtain l r where lr: "lr = (l, r)" by (cases lr) auto
      have "parseQuoted l r (buf @ line) = Inr (field, line', rest', again)"
        using None Some lr pos eq by (subst (asm) parseQuoted.simps) simp
      from "1.IH"(2)[OF None pos Some[unfolded lr] refl this]
      show ?thesis using readLine_shorter[of rest l r] Some lr by simp
    qed
  next
    case (Some i)
    define line1 where "line1 = drop (i + 1) line"
    have l1: "length line1 \<le> length line" by (simp add: line1_def)
    show ?thesis
    proof (cases "line1 \<noteq> [] \<and> hd line1 = QUOTE")
      case True
      have "parseQuoted (tl line1) rest ((buf @ take i line) @ [QUOTE]) =
            Inr (field, line', rest', again)"
        using Some True eq by (subst (asm) parseQuoted.simps) (simp add: Let_def line1_def)
      from "1.IH"(3)[OF Some refl line1_def True this]
      have "length line' + length rest' \<le> length (tl line1) + length rest"
        and "length rest' \<le> length rest" by simp_all
      moreover have "length (tl line1) \<le> length line" using l1 by simp
      ultimately show ?thesis by simp
    next
      case False
      then show ?thesis using Some eq l1
        by (subst (asm) parseQuoted.simps) (auto simp: Let_def line1_def split: if_splits)
    qed
  qed
qed

termination parseFields
proof (relation "measure (\<lambda>(line, rest, dst). length line + length rest)", goal_cases)
  case 1
  show ?case by simp
next
  case (2 line rest dst i)
  then show ?case using IndexByte_less[of line COMMA i] by simp
next
  case (3 line rest dst r field y line' z rest' again)
  then have "line \<noteq> []" by auto
  moreover have "length line' + length rest' \<le> length (tl line) + length rest"
    using 3 parseQuoted_shorter[of "tl line" rest "[]" field line' rest' again] by simp
  ultimately show ?case by (cases line) simp_all
qed

declare parseFields.simps [simp del]

lemma parseFields_shorter:
  "parseFields line rest dst = Inr (record, rest') \<Longrightarrow> length rest' \<le> length rest"
proof (induction line rest dst rule: parseFields.induct)
  case (1 line rest dst)
  note eq = "1.prems"
  show ?case
  proof (cases "line = [] \<or> hd line \<noteq> QUOTE")
    case True
    show ?thesis
    proof (cases "IndexByte line COMMA")
      case None
      then show ?thesis using True eq
        by (subst (asm) parseFields.simps) (auto simp: Let_def split: if_splits)
    next
      case (Some i)
      have nq: "QUOTE \<notin> set (take i line)" using True Some eq
        by (subst (asm) parseFields.simps) (auto split: if_splits)
      have "parseFields (drop (i + 1) line) rest (dst @ [take i line]) = Inr (record, rest')"
        using True Some nq eq by (subst (asm) parseFields.simps) simp
      from "1.IH"(1)[OF True Some nq this] show ?thesis .
    qed
  next
    case False
    show ?thesis
    proof (cases "parseQuoted (tl line) rest []")
      case (Inl e)
      then show ?thesis using False eq by (subst (asm) parseFields.simps) simp
    next
      case (Inr q)
      obtain field line' rest1 again where q: "q = (field, line', rest1, again)"
        by (cases q) auto
      have le: "length rest1 \<le> length rest"
        using parseQuoted_shorter[OF Inr[unfolded q]] by simp
      show ?thesis
      proof (cases again)
        case True
        have "parseFields line' rest1 (dst @ [field]) = Inr (record, rest')"
          using False Inr q True eq by (subst (asm) parseFields.simps) simp
        from "1.IH"(2)[OF False Inr q[symmetric] refl refl True this] le show ?thesis by simp
      next
        case nagain: False
        then show ?thesis using False Inr q eq le
          by (subst (asm) parseFields.simps) simp
      qed
    qed
  qed
qed

termination skip_empty_lines
  by (relation "measure length") (auto dest!: readLine_shorter)

declare skip_empty_lines.simps [simp del]

lemma skip_empty_lines_shorter:
  "skip_empty_lines inp = Some (line, rest) \<Longrightarrow> length rest < length inp"
proof (induction inp rule: skip_empty_lines.induct)
  case (1 inp)
  show ?case
  proof (cases "readLine inp")
    case None
    then show ?thesis using "1.prems" by (subst (asm) skip_empty_lines.simps) simp
  next
    case (Some lr)
    obtain l r where lr: "lr = (l, r)" by (cases lr) auto
    have r: "length r < length inp" using readLine_shorter[of inp l r] Some lr by simp
    show ?thesis
    proof (cases "length l = lengthNL l")
      case True
      have "skip_empty_lines r = Some (line, rest)"
        using Some lr True "1.prems" by (subst (asm) skip_empty_lines.simps) simp
      from "1.IH"[OF Some[unfolded lr] refl True this] r show ?thesis by simp
    next
      case False
      then show ?thesis using Some lr r "1.prems"
        by (subst (asm) skip_empty_lines.simps) simp
    qed
  qed
qed

lemma readRecord_shorter:
  "readRecord n inp = Some (Inr (record, n', rest)) \<Longrightarrow> length rest < length inp"
  by (auto simp: readRecord_def split: option.splits sum.splits if_splits
      dest!: skip_empty_lines_shorter parseFields_shorter)

termination ReadAll_loop
  by (relation "measure (\<lambda>(n, inp, records). length inp)") (auto dest!: readRecord_shorter)

declare ReadAll_loop.simps [simp del]


subsection \<open>Lines\<close>




lemma split_line_LF: "split_line (LF # t) = ([LF], t)"
  by (simp add: split_line_def)

lemma split_line_Cons: "x \<noteq> LF \<Longrightarrow> split_line (x # t) = (x # fst (split_line t), snd (split_line t))"
  by (simp add: split_line_def)



lemma split_line_id: "LF \<in> set t \<Longrightarrow> fst (split_line t) @ snd (split_line t) = t"
proof (induction t)
  case Nil
  then show ?case by simp
next
  case (Cons x t)
  then show ?case by (cases "x = LF") (auto simp: split_line_LF split_line_Cons)
qed





subsection \<open>A record read back\<close>











subsection \<open>A file read back\<close>







lemma skip_empty_lines_Nil: "skip_empty_lines [] = None"
  by (simp add: skip_empty_lines.simps[of "[]"] readLine_def)



subsection \<open>A batch written and read\<close>



lemma writeTo_rows_text: "fst (writeTo_rows c batch out) = out @ rows_text c batch"
  by (induction batch arbitrary: out) (auto split: sum.splits)

lemma writeTo_rows_error:
  "(snd (writeTo_rows c batch out) = None) = list_all (encodes c) batch"
  by (induction batch arbitrary: out) (auto simp: encodes_def split: sum.splits)


lemma rows_text_append:
  "list_all (encodes c) xs \<Longrightarrow> rows_text c (xs @ ys) = rows_text c xs @ rows_text c ys"
  by (induction xs) (auto simp: encodes_def split: sum.splits)


lemma MarshalCSV_text:
  "fst (MarshalCSV c batch) = Writer_Write (Fields c) @ rows_text c batch"
  by (simp add: MarshalCSV_def writeTo_def writeTo_rows_text)

lemma MarshalCSVWithoutHeaders_text: "fst (MarshalCSVWithoutHeaders c batch) = rows_text c batch"
  by (simp add: MarshalCSVWithoutHeaders_def writeTo_def writeTo_rows_text)

lemma MarshalCSV_error: "(snd (MarshalCSV c batch) = None) = list_all (encodes c) batch"
  by (simp add: MarshalCSV_def writeTo_def writeTo_rows_error)

lemma MarshalCSVWithoutHeaders_error:
  "(snd (MarshalCSVWithoutHeaders c batch) = None) = list_all (encodes c) batch"
  by (simp add: MarshalCSVWithoutHeaders_def writeTo_def writeTo_rows_error)

lemma Marshal_appended:
  "fst (if length old = 0 then MarshalCSV c batch else MarshalCSVWithoutHeaders c batch) =
   appended c old batch"
  by (simp add: appended_def MarshalCSV_text MarshalCSVWithoutHeaders_text)

lemma Marshal_appended_error:
  "(snd (if length old = 0 then MarshalCSV c batch else MarshalCSVWithoutHeaders c batch) = None) =
   list_all (encodes c) batch"
  by (simp add: MarshalCSV_error MarshalCSVWithoutHeaders_error)

lemma appendResultsToCSV_unfold:
  assumes "open_err os = None"
    and "m = (if length (file_content fs filePath) = 0 then MarshalCSV c batch
              else MarshalCSVWithoutHeaders c batch)"
  shows "appendResultsToCSV os c fs filePath batch =
        (case stat_err os of
           Some err \<Rightarrow>
             (Some (''failed to stat file: '' @ err), fs(filePath \<mapsto> file_content fs filePath))
         | None \<Rightarrow>
             (case m of
                (out, Some err) \<Rightarrow>
                  (Some (''failed to marshal and append results to CSV: '' @ err),
                   fs(filePath \<mapsto> file_content fs filePath @ take (flushed os) out))
              | (out, None) \<Rightarrow>
                  (case write_err os of
                     Some err \<Rightarrow>
                       (Some (''failed to marshal and append results to CSV: '' @ err),
                        fs(filePath \<mapsto> file_content fs filePath @ take (flushed os) out))
                   | None \<Rightarrow> (None, fs(filePath \<mapsto> file_content fs filePath @ out)))))"
  unfolding appendResultsToCSV_def Let_def assms(2) file_content_def using assms(1) by simp

lemma appendResultsToCSV_opened:
  assumes "open_err os = None"
  shows "\<exists>k. snd (appendResultsToCSV os c fs filePath batch) =
           fs(filePath \<mapsto> file_content fs filePath @
                take k (appended c (file_content fs filePath) batch))"
proof -
  define old where "old = file_content fs filePath"
  define m where
    "m = (if length old = 0 then MarshalCSV c batch else MarshalCSVWithoutHeaders c batch)"
  have out: "fst m = appended c old batch" unfolding m_def by (rule Marshal_appended)
  note eq = appendResultsToCSV_unfold[OF assms m_def[unfolded old_def], folded old_def]
  have "snd (appendResultsToCSV os c fs filePath batch) = fs(filePath \<mapsto> old @ take 0 (fst m)) \<or>
        snd (appendResultsToCSV os c fs filePath batch) =
          fs(filePath \<mapsto> old @ take (flushed os) (fst m)) \<or>
        snd (appendResultsToCSV os c fs filePath batch) =
          fs(filePath \<mapsto> old @ take (length (fst m)) (fst m))"
    unfolding eq by (cases m) (auto split: option.splits)
  then show ?thesis unfolding out old_def by blast
qed

lemma appendResultsToCSV_done:
  assumes "fst (appendResultsToCSV os c fs filePath batch) = None"
  shows "snd (appendResultsToCSV os c fs filePath batch) =
           fs(filePath \<mapsto> file_content fs filePath @ appended c (file_content fs filePath) batch) \<and>
         list_all (encodes c) batch"
proof -
  define old where "old = file_content fs filePath"
  define m where
    "m = (if length old = 0 then MarshalCSV c batch else MarshalCSVWithoutHeaders c batch)"
  have out: "fst m = appended c old batch" unfolding m_def by (rule Marshal_appended)
  have err: "(snd m = None) = list_all (encodes c) batch"
    unfolding m_def by (rule Marshal_appended_error)
  have op: "open_err os = None"
    using assms by (cases "open_err os") (auto simp: appendResultsToCSV_def)
  note eq = appendResultsToCSV_unfold[OF op m_def[unfolded old_def], folded old_def]
  have "snd (appendResultsToCSV os c fs filePath batch) = fs(filePath \<mapsto> old @ fst m) \<and>
        snd m = None"
    using assms unfolding eq by (cases m) (auto split: option.splits)
  then show ?thesis using out err by (simp add: old_def)
qed

lemma appendResultsToCSV_no_faults:
  assumes "list_all (encodes c) batch"
  shows "appendResultsToCSV no_faults c fs filePath batch =
           (None, fs(filePath \<mapsto> file_content fs filePath @
                    appended c (file_content fs filePath) batch))"
proof -
  define old where "old = file_content fs filePath"
  define m where
    "m = (if length old = 0 then MarshalCSV c batch else MarshalCSVWithoutHeaders c batch)"
  have out: "fst m = appended c old batch" unfolding m_def by (rule Marshal_appended)
  have err: "snd m = None"
    using assms Marshal_appended_error[of old c batch] by (simp add: m_def)
  have op: "open_err no_faults = None" by (simp add: no_faults_def)
  note eq = appendResultsToCSV_unfold[OF op m_def[unfolded old_def], folded old_def]
  show ?thesis unfolding eq using out err
    by (cases m) (simp add: no_faults_def old_def)
qed

lemma append_all_nonempty:
  assumes "file_content fs filePath \<noteq> []" and "list_all (list_all (encodes c)) batches"
  shows "file_content (append_all c filePath fs batches) filePath =
         file_content fs filePath @ rows_text c (concat batches)"
  using assms
proof (induction batches arbitrary: fs)
  case Nil
  then show ?case by (simp add: append_all_def)
next
  case (Cons batch batches)
  define fs' where "fs' = snd (appendResultsToCSV no_faults c fs filePath batch)"
  have enc: "list_all (encodes c) batch" using Cons.prems(2) by simp
  have c': "file_content fs' filePath = file_content fs filePath @ rows_text c batch"
    using Cons.prems(1)
    by (simp add: fs'_def appendResultsToCSV_no_faults[OF enc] file_content_def appended_def)
  then have ne: "file_content fs' filePath \<noteq> []" using Cons.prems(1) by simp
  have "append_all c filePath fs (batch # batches) = append_all c filePath fs' batches"
    by (simp add: append_all_def fs'_def)
  then show ?case using Cons.IH[OF ne] Cons.prems(2) c' enc by (simp add: rows_text_append)
qed

lemma Writer_Write_ne: "Writer_Write row \<noteq> []"
  by (simp add: Writer_Write_def)

lemma append_all_empty:
  assumes "file_content fs filePath = []" and "batches \<noteq> []"
    and "list_all (list_all (encodes c)) batches"
  shows "file_content (append_all c filePath fs batches) filePath =
         Writer_Write (Fields c) @ rows_text c (concat batches)"
proof -
  obtain batch bs where b: "batches = batch # bs" using assms(2) by (cases batches) auto
  define fs' where "fs' = snd (appendResultsToCSV no_faults c fs filePath batch)"
  have enc: "list_all (encodes c) batch" using assms(3) b by simp
  have c': "file_content fs' filePath = Writer_Write (Fields c) @ rows_text c batch"
    using assms(1)
    by (simp add: fs'_def appendResultsToCSV_no_faults[OF enc] file_content_def appended_def)
  then have ne: "file_content fs' filePath \<noteq> []" by (simp add: Writer_Write_ne)
  have "append_all c filePath fs batches = append_all c filePath fs' bs"
    by (simp add: append_all_def fs'_def b)
  then show ?thesis using append_all_nonempty[OF ne, of c bs] assms(3) b c' enc
    by (simp add: rows_text_append)
qed





lemma ReadAll_Nil: "ReadAll [] = Inr []"
  by (simp add: ReadAll_def ReadAll_loop.simps[of 0 "[]"] readRecord_def skip_empty_lines_Nil)

text \<open>
  C4. A call of \<^verbatim>\<open>appendResultsToCSV\<close> that cannot open the file leaves the files as they
  are. Every other call leaves in the file its old content followed by a part of what the
  call is to append, which is the header row and then the rows of the batch if the file
  was empty or new, and the rows of the batch alone, with no header row, if the file
  was not empty; a call that returns no error leaves all of it, and every result of the
  batch has been encoded. So after any number of calls that the operating system does not
  refuse, on a file that was empty or new, the file holds the header row once, at its
  start, and then the rows of all the batches in order.
\<close>

theorem appendResultsToCSV_header_iff_empty:
  "(open_err os \<noteq> None \<longrightarrow> snd (appendResultsToCSV os c fs filePath batch) = fs) \<and>
   (open_err os = None \<longrightarrow>
      (\<exists>k. snd (appendResultsToCSV os c fs filePath batch) =
         fs(filePath \<mapsto> file_content fs filePath @
              take k ((if file_content fs filePath = [] then Writer_Write (Fields c) else []) @
                      rows_text c batch)))) \<and>
   (fst (appendResultsToCSV os c fs filePath batch) = None \<longrightarrow>
      snd (appendResultsToCSV os c fs filePath batch) =
        fs(filePath \<mapsto> file_content fs filePath @
             (if file_content fs filePath = [] then Writer_Write (Fields c) else []) @
             rows_text c batch) \<and>
      list_all (encodes c) batch) \<and>
   (file_content fs filePath = [] \<and> batches \<noteq> [] \<and> list_all (list_all (encodes c)) batches \<longrightarrow>
      file_content (append_all c filePath fs batches) filePath =
        Writer_Write (Fields c) @ rows_text c (concat batches))"
proof -
  have "open_err os \<noteq> None \<Longrightarrow> snd (appendResultsToCSV os c fs filePath batch) = fs"
    by (auto simp: appendResultsToCSV_def)
  moreover note appendResultsToCSV_opened[of os c fs filePath batch, unfolded appended_def]
    appendResultsToCSV_done[of os c fs filePath batch, unfolded appended_def]
    append_all_empty[of fs filePath batches c]
  ultimately show ?thesis by blast
qed

theorem appendResultsToCSV_header_iff_empty_witness:
  "file_content
     (snd (appendResultsToCSV no_faults (rows_codec [''link'', ''delay''])
             (Map.empty(''history.csv'' \<mapsto> [])) ''history.csv'' [[''a'', ''1'']]))
     ''history.csv'' = ''link,delay'' @ [LF] @ ''a,1'' @ [LF] \<and>
   file_content
     (append_all (rows_codec [''link'', ''delay'']) ''history.csv''
        (Map.empty(''history.csv'' \<mapsto> [])) [[[''a'', ''1'']], [[''b'', ''2''], [''c'', ''3'']]])
     ''history.csv'' =
     ''link,delay'' @ [LF] @ ''a,1'' @ [LF] @ ''b,2'' @ [LF] @ ''c,3'' @ [LF]"
proof -
  have "fst (appendResultsToCSV no_faults (rows_codec [''link'', ''delay''])
               (Map.empty(''history.csv'' \<mapsto> [])) ''history.csv'' [[''a'', ''1'']]) = None"
    by code_simp
  then show ?thesis
    using appendResultsToCSV_header_iff_empty
      [of no_faults "rows_codec [''link'', ''delay'']" "Map.empty(''history.csv'' \<mapsto> [])"
          "''history.csv''" "[[''a'', ''1'']]"
          "[[[''a'', ''1'']], [[''b'', ''2''], [''c'', ''3'']]]"]
    by (simp add: file_content_def rows_codec_def encodes_def csvRow_def
        Writer_Write_def write_field_def fieldNeedsQuotes_def starts_with_space_def
        space_runes_def)
qed




text \<open>
  C10. Without the history file, \<^verbatim>\<open>loadResultsFromCSV\<close> returns no error and leaves the slice
  as it is, and the history endpoint answers 200 with an empty array. With a history
  file that exists and is empty, \<^verbatim>\<open>gocsv\<close> returns its error \<^verbatim>\<open>empty csv file given\<close>, which is
  not the text \<^verbatim>\<open>EOF\<close> that \<^verbatim>\<open>loadResultsFromCSV\<close> lets pass: it returns an error, the slice
  as it is, and the history endpoint answers 500.
\<close>

theorem loadResultsFromCSV_empty_file:
  "loadResultsFromCSV (os\<lparr>open_err := None\<rparr>) c (fs(filePath := None)) filePath v = (None, v) \<and>
   handleHttpTestHistory (os\<lparr>open_err := None\<rparr>) c (fs(httpTesterHistoryFile := None))
     \<lparr>Method = ''GET''\<rparr> = WriteJSONResponse 200 (Array []) \<and>
   loadResultsFromCSV (os\<lparr>open_err := None\<rparr>) c (fs(filePath \<mapsto> [])) filePath v =
     (Some ''failed to parse CSV file: empty csv file given'', v) \<and>
   handleHttpTestHistory (os\<lparr>open_err := None\<rparr>) c (fs(httpTesterHistoryFile \<mapsto> []))
     \<lparr>Method = ''GET''\<rparr> =
     WriteJSONError
       ''failed to load http test history: failed to parse CSV file: empty csv file given'' 500"
  by (simp add: loadResultsFromCSV_def handleHttpTestHistory_def UnmarshalFile_def ReadAll_Nil
      MethodGet_def StatusOK_def StatusInternalServerError_def)

end
